theory Spec2Isabelle
  imports Main "HOL-Library.Sublist" "HOL-Library.AList"
begin

section \<open>The file system the build scripts run on\<close>

text \<open>
  Both scripts are sequential glue around the file system, so the model is a file system
  with the library calls the scripts make. A path is the list of its components
  (\<open>/a/b\<close> is \<open>[''a'', ''b'']\<close>, the root is \<open>[]\<close>), a file system is an association
  list from paths to entries, in the order in which a directory listing returns them.
  Symbolic links, permissions and special files are outside the model.
\<close>

type_synonym path = "string list"

datatype entry = File string | Dir

type_synonym filesystem = "(path \<times> entry) list"

datatype oserror =
    FileExistsError | FileNotFoundError | NotADirectoryError | IsADirectoryError | IOError

text \<open>\<^verbatim>\<open>os.path.exists\<close>, \<^verbatim>\<open>os.path.isfile\<close>, \<^verbatim>\<open>os.path.isdir\<close>: queries, they never raise.\<close>

definition os_path_exists :: "filesystem \<Rightarrow> path \<Rightarrow> bool" where
  "os_path_exists s p = (map_of s p \<noteq> None)"

definition os_path_isfile :: "filesystem \<Rightarrow> path \<Rightarrow> bool" where
  "os_path_isfile s p = (case map_of s p of Some (File c) \<Rightarrow> True | _ \<Rightarrow> False)"

definition os_path_isdir :: "filesystem \<Rightarrow> path \<Rightarrow> bool" where
  "os_path_isdir s p = (map_of s p = Some Dir)"

text \<open>\<^verbatim>\<open>os.path.join(root, name)\<close> and \<^verbatim>\<open>os.path.dirname\<close> on component lists.\<close>

definition os_path_join :: "path \<Rightarrow> string \<Rightarrow> path" where
  "os_path_join root name = root @ [name]"

definition os_path_dirname :: "path \<Rightarrow> path" where
  "os_path_dirname p = butlast p"

text \<open>\<^verbatim>\<open>str.endswith\<close>.\<close>

definition endswith :: "string \<Rightarrow> string \<Rightarrow> bool" where
  "endswith name suf = suffix suf name"

text \<open>
  The direct children of a directory, by name, in listing order. \<^verbatim>\<open>os.listdir\<close> raises on
  what is not a directory.
\<close>

definition children :: "filesystem \<Rightarrow> path \<Rightarrow> string list" where
  "children s p = remdups (map (\<lambda>(q, e). last q) (filter (\<lambda>(q, e). q \<noteq> [] \<and> butlast q = p) s))"

definition os_listdir :: "filesystem \<Rightarrow> path \<Rightarrow> oserror + string list" where
  "os_listdir s p =
     (case map_of s p of
        None \<Rightarrow> Inl FileNotFoundError
      | Some (File c) \<Rightarrow> Inl NotADirectoryError
      | Some Dir \<Rightarrow> Inr (children s p))"

text \<open>\<^verbatim>\<open>os.remove\<close> deletes a file and raises on a directory or a missing path.\<close>

definition os_remove :: "filesystem \<Rightarrow> path \<Rightarrow> oserror + filesystem" where
  "os_remove s p =
     (case map_of s p of
        None \<Rightarrow> Inl FileNotFoundError
      | Some Dir \<Rightarrow> Inl IsADirectoryError
      | Some (File c) \<Rightarrow> Inr (AList.delete p s))"

text \<open>\<^verbatim>\<open>shutil.rmtree\<close> deletes a directory with everything below it.\<close>

definition shutil_rmtree :: "filesystem \<Rightarrow> path \<Rightarrow> oserror + filesystem" where
  "shutil_rmtree s p =
     (case map_of s p of
        None \<Rightarrow> Inl FileNotFoundError
      | Some (File c) \<Rightarrow> Inl NotADirectoryError
      | Some Dir \<Rightarrow> Inr (filter (\<lambda>(q, e). \<not> prefix p q) s))"

text \<open>\<^verbatim>\<open>os.mkdir\<close>: the path must be free and its parent a directory.\<close>

definition os_mkdir :: "filesystem \<Rightarrow> path \<Rightarrow> oserror + filesystem" where
  "os_mkdir s p =
     (if p = [] \<or> os_path_exists s p then Inl FileExistsError
      else (case map_of s (butlast p) of
              None \<Rightarrow> Inl FileNotFoundError
            | Some (File c) \<Rightarrow> Inl NotADirectoryError
            | Some Dir \<Rightarrow> Inr (AList.update p Dir s)))"

text \<open>
  \<^verbatim>\<open>os.makedirs(name, exist_ok=True)\<close>: when the parent is missing it is made first (a
  \<^verbatim>\<open>FileExistsError\<close> of that call is passed over); then \<^verbatim>\<open>mkdir(name)\<close>, whose error
  is passed over when \<^verbatim>\<open>name\<close> is a directory already.
\<close>

definition mkdir_exist_ok :: "filesystem \<Rightarrow> path \<Rightarrow> oserror + filesystem" where
  "mkdir_exist_ok s name =
     (case os_mkdir s name of
        Inr s' \<Rightarrow> Inr s'
      | Inl e \<Rightarrow> if os_path_isdir s name then Inr s else Inl e)"

function os_makedirs :: "filesystem \<Rightarrow> path \<Rightarrow> oserror + filesystem" where
  "os_makedirs s name =
     (if name \<noteq> [] \<and> \<not> os_path_exists s (butlast name) then
        (case os_makedirs s (butlast name) of
           Inr s1 \<Rightarrow> mkdir_exist_ok s1 name
         | Inl FileExistsError \<Rightarrow> mkdir_exist_ok s name
         | Inl e \<Rightarrow> Inl e)
      else mkdir_exist_ok s name)"
  by pat_completeness auto
termination
  by (relation "measure (\<lambda>(s, name). length name)") auto

declare os_makedirs.simps [simp del]

text \<open>
  Opening a file for writing (\<^verbatim>\<open>open(p, 'wb')\<close>, then writing \<open>c\<close> and closing): the
  path must not be a directory and its parent must be one.
\<close>

definition write_file :: "filesystem \<Rightarrow> path \<Rightarrow> string \<Rightarrow> oserror + filesystem" where
  "write_file s p c =
     (if p = [] \<or> os_path_isdir s p then Inl IsADirectoryError
      else (case map_of s (butlast p) of
              None \<Rightarrow> Inl FileNotFoundError
            | Some (File d) \<Rightarrow> Inl NotADirectoryError
            | Some Dir \<Rightarrow> Inr (AList.update p (File c) s)))"

text \<open>
  \<^verbatim>\<open>shutil.copytree(src, dst, dirs_exist_ok=True)\<close>. The source is listed first (an error
  there leaves everything as it was), then the destination is made, then every directory
  below the source is made below the destination and every file is copied with
  \<^verbatim>\<open>copy2\<close>, which writes into the directory when the destination name is one. Errors of
  single entries are collected while the copy goes on, and raised at the end.
\<close>

definition relocate :: "path \<Rightarrow> path \<Rightarrow> path \<Rightarrow> path" where
  "relocate src dst q = dst @ drop (length src) q"

definition copy_dir :: "path \<Rightarrow> path \<Rightarrow> path \<Rightarrow> filesystem \<times> oserror list \<Rightarrow> filesystem \<times> oserror list" where
  "copy_dir src dst q acc =
     (case os_makedirs (fst acc) (relocate src dst q) of
        Inr s' \<Rightarrow> (s', snd acc)
      | Inl e \<Rightarrow> (fst acc, snd acc @ [e]))"

definition copy2 :: "path \<Rightarrow> path \<Rightarrow> path \<times> string \<Rightarrow> filesystem \<times> oserror list \<Rightarrow> filesystem \<times> oserror list" where
  "copy2 src dst qc acc =
     (let q = fst qc; t = relocate src dst q;
          t' = (if os_path_isdir (fst acc) t then t @ [last q] else t)
      in case write_file (fst acc) t' (snd qc) of
           Inr s' \<Rightarrow> (s', snd acc)
         | Inl e \<Rightarrow> (fst acc, snd acc @ [e]))"

definition tree_dirs :: "filesystem \<Rightarrow> path \<Rightarrow> path list" where
  "tree_dirs s src = map fst (filter (\<lambda>(q, e). strict_prefix src q \<and> e = Dir) s)"

definition tree_files :: "filesystem \<Rightarrow> path \<Rightarrow> (path \<times> string) list" where
  "tree_files s src =
     concat (map (\<lambda>(q, e). case e of File c \<Rightarrow> if strict_prefix src q then [(q, c)] else [] | Dir \<Rightarrow> []) s)"

definition shutil_copytree :: "filesystem \<Rightarrow> path \<Rightarrow> path \<Rightarrow> filesystem \<times> oserror list" where
  "shutil_copytree s src dst =
     (case map_of s src of
        None \<Rightarrow> (s, [FileNotFoundError])
      | Some (File c) \<Rightarrow> (s, [NotADirectoryError])
      | Some Dir \<Rightarrow>
          (case os_makedirs s dst of
             Inl e \<Rightarrow> (s, [e])
           | Inr s0 \<Rightarrow>
               fold (copy2 src dst) (tree_files s src)
                 (fold (copy_dir src dst) (tree_dirs s src) (s0, []))))"

section \<open>The process: working directory, output, subprocesses\<close>

text \<open>What the Frontend Packager prints, one constructor for each \<^verbatim>\<open>print\<close> of the script.\<close>

datatype message =
    Building_SvelteKit_frontend
  | ERROR_Frontend_directory_not_found path
  | Please_make_sure
  | No_package_manager_detected
  | Detected_package_manager string
  | Installing_dependencies
  | Building_frontend
  | ERROR_Build_directory_not_found_after_build path
  | Error_during_build_process
  | Unexpected_error_during_build
  | Error_compressing_file path
  | Processing_frontend_files_from path
  | ERROR_Build_directory_not_found path
  | Copying_files path path
  | Compressing_files
  | Frontend_files_processed nat nat
  | Error_processing_frontend_files

datatype event = Print message | Chdir path | Spawn "string list" path

record state =
  fsys :: filesystem
  cwd :: path
  trace :: "event list"

definition py_print :: "message \<Rightarrow> state \<Rightarrow> state" where
  "py_print m s = s\<lparr>trace := trace s @ [Print m]\<rparr>"

text \<open>
  What the scripts cannot decide themselves is a parameter: the project directory handed
  over by the build orchestrator, the bytes gzip produces, an I/O fault that strikes while
  a file is being compressed, and what a spawned command does to the file system and how
  it ends.
\<close>

datatype io_fault =
    Fault_open_source
  | Fault_open_target
  | Fault_copy string
  | Fault_remove

datatype proc_result = Exited nat | Not_started

record env =
  project_dir :: path
  gzip_bytes :: "string \<Rightarrow> string"
  fault_at :: "path \<Rightarrow> io_fault option"
  command :: "string list \<Rightarrow> path \<Rightarrow> filesystem \<Rightarrow> proc_result \<times> filesystem"

text \<open>\<^verbatim>\<open>os.getcwd\<close> and \<^verbatim>\<open>os.chdir\<close>: both raise when the directory is not there.\<close>

definition os_getcwd :: "state \<Rightarrow> oserror + path" where
  "os_getcwd s = (if os_path_isdir (fsys s) (cwd s) then Inr (cwd s) else Inl FileNotFoundError)"

definition os_chdir :: "path \<Rightarrow> state \<Rightarrow> oserror + state" where
  "os_chdir p s =
     (case map_of (fsys s) p of
        None \<Rightarrow> Inl FileNotFoundError
      | Some (File c) \<Rightarrow> Inl NotADirectoryError
      | Some Dir \<Rightarrow> Inr (s\<lparr>cwd := p, trace := trace s @ [Chdir p]\<rparr>))"

text \<open>
  \<^verbatim>\<open>subprocess.run(argv, check=True)\<close>: the command runs in the current working directory
  and may change the file system; a nonzero exit raises \<^verbatim>\<open>CalledProcessError\<close>, a command
  that cannot be started raises an \<^verbatim>\<open>OSError\<close>.
\<close>

datatype exn = CalledProcessError | Exception

definition subprocess_run :: "env \<Rightarrow> string list \<Rightarrow> state \<Rightarrow> exn option \<times> state" where
  "subprocess_run e argv s =
     (let s0 = s\<lparr>trace := trace s @ [Spawn argv (cwd s)]\<rparr> in
      case command e argv (cwd s) (fsys s) of
        (Not_started, f) \<Rightarrow> (Some Exception, s0)
      | (Exited code, f) \<Rightarrow>
          (if code = 0 then (None, s0\<lparr>fsys := f\<rparr>)
           else (Some CalledProcessError, s0\<lparr>fsys := f\<rparr>)))"

section \<open>The Frontend Packager (build_sveltekit.py)\<close>

subsection \<open>Configuration variables\<close>

definition FRONTEND_DIR :: "env \<Rightarrow> path" where
  "FRONTEND_DIR e = os_path_join (os_path_dirname (project_dir e)) ''Modular_Macropad_Front_End_v2''"

definition OUTPUT_DIR :: "env \<Rightarrow> path" where
  "OUTPUT_DIR e = os_path_join (os_path_join (project_dir e) ''data'') ''web''"

definition BUILD_DIR :: "env \<Rightarrow> path" where
  "BUILD_DIR e = os_path_join (FRONTEND_DIR e) ''build''"

subsection \<open>get_package_manager\<close>

definition get_package_manager :: "env \<Rightarrow> filesystem \<Rightarrow> string option" where
  "get_package_manager e s =
     (if os_path_exists s (os_path_join (FRONTEND_DIR e) ''pnpm-lock.yaml'') then Some ''pnpm''
      else if os_path_exists s (os_path_join (FRONTEND_DIR e) ''yarn.lock'') then Some ''yarn''
      else if os_path_exists s (os_path_join (FRONTEND_DIR e) ''package-lock.json'')
              \<or> os_path_exists s (os_path_join (FRONTEND_DIR e) ''package.json'') then Some ''npm''
      else None)"

subsection \<open>build_frontend\<close>

text \<open>
  A call either returns a value or lets an exception escape to its caller. The body of the
  \<^verbatim>\<open>try\<close> statement is \<open>build_try\<close>: it returns, or raises one of the two exceptions
  the handlers tell apart. An exception raised inside a handler is not caught again.
\<close>

datatype 'a outcome = Returned 'a | Raised

definition build_try :: "env \<Rightarrow> string \<Rightarrow> path \<Rightarrow> state \<Rightarrow> (exn + bool) \<times> state" where
  "build_try e package_manager original_dir s =
     (case (if \<not> os_path_exists (fsys s) (os_path_join (FRONTEND_DIR e) ''node_modules'')
            then subprocess_run e [package_manager, ''install''] (py_print Installing_dependencies s)
            else (None, s)) of
        (Some x, s1) \<Rightarrow> (Inl x, s1)
      | (None, s1) \<Rightarrow>
          (case subprocess_run e [package_manager, ''run'', ''build''] (py_print Building_frontend s1) of
             (Some x, s2) \<Rightarrow> (Inl x, s2)
           | (None, s2) \<Rightarrow>
               (if \<not> os_path_exists (fsys s2) (BUILD_DIR e) then
                  (let s3 = py_print (ERROR_Build_directory_not_found_after_build (BUILD_DIR e)) s2 in
                   case os_chdir original_dir s3 of
                     Inl err \<Rightarrow> (Inl Exception, s3)
                   | Inr s4 \<Rightarrow> (Inr False, s4))
                else
                  (case os_chdir original_dir s2 of
                     Inl err \<Rightarrow> (Inl Exception, s2)
                   | Inr s3 \<Rightarrow> (Inr True, s3)))))"

definition build_handler :: "message \<Rightarrow> path \<Rightarrow> state \<Rightarrow> bool outcome \<times> state" where
  "build_handler m original_dir s =
     (let s1 = py_print m s in
      case os_chdir original_dir s1 of
        Inl err \<Rightarrow> (Raised, s1)
      | Inr s2 \<Rightarrow> (Returned False, s2))"

definition build_frontend :: "env \<Rightarrow> state \<Rightarrow> bool outcome \<times> state" where
  "build_frontend e s =
     (let s0 = py_print Building_SvelteKit_frontend s in
      if \<not> os_path_exists (fsys s0) (FRONTEND_DIR e) then
        (Returned False, py_print Please_make_sure (py_print (ERROR_Frontend_directory_not_found (FRONTEND_DIR e)) s0))
      else
        (case get_package_manager e (fsys s0) of
           None \<Rightarrow> (Returned False, py_print No_package_manager_detected s0)
         | Some package_manager \<Rightarrow>
             (let s1 = py_print (Detected_package_manager package_manager) s0 in
              case os_getcwd s1 of
                Inl err \<Rightarrow> (Raised, s1)
              | Inr original_dir \<Rightarrow>
                  (case os_chdir (FRONTEND_DIR e) s1 of
                     Inl err \<Rightarrow> (Raised, s1)
                   | Inr s2 \<Rightarrow>
                       (case build_try e package_manager original_dir s2 of
                          (Inr b, s3) \<Rightarrow> (Returned b, s3)
                        | (Inl CalledProcessError, s3) \<Rightarrow>
                            build_handler Error_during_build_process original_dir s3
                        | (Inl Exception, s3) \<Rightarrow>
                            build_handler Unexpected_error_during_build original_dir s3)))))"

subsection \<open>compress_file\<close>

text \<open>The name \<^verbatim>\<open>f"{file_path}.gz"\<close>.\<close>

definition gz_name :: "path \<Rightarrow> path" where
  "gz_name file_path = (if file_path = [] then [''.gz''] else butlast file_path @ [last file_path @ ''.gz''])"

text \<open>
  The body of the \<^verbatim>\<open>try\<close> statement, on the file system: the source is opened for
  reading, the target is opened for writing (which creates or empties it), the compressed
  bytes are written and both files closed, and then the source is removed. Each step can
  raise, for what the file system holds or for an I/O fault, and leaves what was done so
  far.
\<close>

definition compress_try :: "env \<Rightarrow> filesystem \<Rightarrow> path \<Rightarrow> oserror option \<times> filesystem" where
  "compress_try e s file_path =
     (case map_of s file_path of
        None \<Rightarrow> (Some FileNotFoundError, s)
      | Some Dir \<Rightarrow> (Some IsADirectoryError, s)
      | Some (File c) \<Rightarrow>
          (if fault_at e file_path = Some Fault_open_source then (Some IOError, s)
           else if fault_at e file_path = Some Fault_open_target then (Some IOError, s)
           else
             (case write_file s (gz_name file_path) [] of
                Inl err \<Rightarrow> (Some err, s)
              | Inr s1 \<Rightarrow>
                  (case fault_at e file_path of
                     Some (Fault_copy part) \<Rightarrow>
                       (Some IOError, AList.update (gz_name file_path) (File part) s1)
                   | other \<Rightarrow>
                       (let s2 = AList.update (gz_name file_path) (File (gzip_bytes e c)) s1 in
                        if other = Some Fault_remove then (Some IOError, s2)
                        else (case os_remove s2 file_path of
                                Inl err \<Rightarrow> (Some err, s2)
                              | Inr s3 \<Rightarrow> (None, s3)))))))"

definition compress_file :: "env \<Rightarrow> state \<Rightarrow> path \<Rightarrow> bool \<times> state" where
  "compress_file e s file_path =
     (case compress_try e (fsys s) file_path of
        (None, f) \<Rightarrow> (True, s\<lparr>fsys := f\<rparr>)
      | (Some err, f) \<Rightarrow> (False, py_print (Error_compressing_file file_path) (s\<lparr>fsys := f\<rparr>)))"

subsection \<open>process_frontend_files\<close>

text \<open>
  \<^verbatim>\<open>os.walk\<close> is a generator: it lists a directory, hands its directories and its other
  entries to the loop body, and lists each of the directories only when the walk comes to
  it, after the body has run. A directory it cannot list is passed over. \<open>walk_loop\<close> is
  the \<^verbatim>\<open>for\<close> loop over the walk with the directories still to visit, \<open>files_loop\<close> the
  inner loop over the files of one directory.
\<close>

definition os_scandir :: "filesystem \<Rightarrow> path \<Rightarrow> (string list \<times> string list) option" where
  "os_scandir s topdir =
     (case os_listdir s topdir of
        Inl err \<Rightarrow> None
      | Inr names \<Rightarrow>
          Some (filter (\<lambda>n. os_path_isdir s (os_path_join topdir n)) names,
                filter (\<lambda>n. \<not> os_path_isdir s (os_path_join topdir n)) names))"

fun files_loop :: "env \<Rightarrow> path \<Rightarrow> string list \<Rightarrow> state \<times> nat \<times> nat \<Rightarrow> state \<times> nat \<times> nat" where
  "files_loop e root [] acc = acc"
| "files_loop e root (file # files) (s, compressed_count, error_count) =
     (let file_path = os_path_join root file in
      if \<not> endswith file ''.gz'' then
        (case compress_file e s file_path of
           (True, s') \<Rightarrow> files_loop e root files (s', compressed_count + 1, error_count)
         | (False, s') \<Rightarrow> files_loop e root files (s', compressed_count, error_count + 1))
      else files_loop e root files (s, compressed_count, error_count))"

definition dirs_below :: "filesystem \<Rightarrow> path \<Rightarrow> path set" where
  "dirs_below s p = {q. prefix p q \<and> map_of s q = Some Dir}"

lemma finite_dirs_below: "finite (dirs_below s p)"
proof -
  have "dirs_below s p \<subseteq> fst ` set s"
    by (auto simp: dirs_below_def dest!: map_of_SomeD intro: rev_image_eqI)
  then show ?thesis by (rule finite_subset) simp
qed

lemma compress_try_dir:
  "(map_of (snd (compress_try e s p)) q = Some Dir) = (map_of s q = Some Dir)"
  by (auto simp: compress_try_def write_file_def os_remove_def os_path_isdir_def
      update_conv' delete_conv' Let_def
      split: option.splits entry.splits sum.splits io_fault.splits if_splits)

lemma compress_file_dir:
  "(map_of (fsys (snd (compress_file e s p))) q = Some Dir) = (map_of (fsys s) q = Some Dir)"
  using compress_try_dir [of e "fsys s" p q]
  by (auto simp: compress_file_def py_print_def split: prod.splits option.splits)

lemma files_loop_dir:
  "(map_of (fsys (fst (files_loop e root files acc))) q = Some Dir) = (map_of (fsys (fst acc)) q = Some Dir)"
proof (induction files arbitrary: acc)
  case Nil
  then show ?case by simp
next
  case (Cons f fs)
  obtain s cc ec where acc: "acc = (s, cc, ec)" by (cases acc)
  show ?case
    using Cons.IH compress_file_dir [of e s "os_path_join root f" q]
    by (auto simp: acc Let_def split: prod.splits bool.splits)
qed

lemma dirs_below_files_loop:
  "dirs_below (fsys (fst (files_loop e root files acc))) p = dirs_below (fsys (fst acc)) p"
  by (simp add: dirs_below_def files_loop_dir)

lemma dirs_below_children:
  assumes "map_of s topdir = Some Dir" "distinct ds"
  shows "(\<Sum>d\<leftarrow>ds. card (dirs_below s (topdir @ [d]))) < card (dirs_below s topdir)"
proof -
  have disj: "\<And>d d'. d \<noteq> d' \<Longrightarrow> dirs_below s (topdir @ [d]) \<inter> dirs_below s (topdir @ [d']) = {}"
    by (auto simp: dirs_below_def prefix_def)
  have sub: "(\<Union>d\<in>set ds. dirs_below s (topdir @ [d])) \<subseteq> dirs_below s topdir - {topdir}"
    by (auto simp: dirs_below_def prefix_def)
  have "(\<Sum>d\<leftarrow>ds. card (dirs_below s (topdir @ [d]))) = (\<Sum>d\<in>set ds. card (dirs_below s (topdir @ [d])))"
    using assms(2) by (simp add: sum_list_distinct_conv_sum_set)
  also have "\<dots> = card (\<Union>d\<in>set ds. dirs_below s (topdir @ [d]))"
    by (rule card_UN_disjoint [symmetric]) (auto simp: finite_dirs_below disj)
  also have "\<dots> \<le> card (dirs_below s topdir - {topdir})"
    by (rule card_mono) (use sub finite_dirs_below in auto)
  also have "\<dots> < card (dirs_below s topdir)"
    using assms(1) by (intro psubset_card_mono finite_dirs_below) (auto simp: dirs_below_def)
  finally show ?thesis .
qed

definition walk_measure :: "env \<times> path list \<times> state \<times> nat \<times> nat \<Rightarrow> nat \<times> nat" where
  "walk_measure x = (case x of (e, stack, s, cc, ec) \<Rightarrow>
     ((\<Sum>p\<leftarrow>stack. card (dirs_below (fsys s) p)), length stack))"

function walk_loop :: "env \<Rightarrow> path list \<Rightarrow> state \<times> nat \<times> nat \<Rightarrow> state \<times> nat \<times> nat" where
  "walk_loop e [] acc = acc"
| "walk_loop e (topdir # stack) (s, compressed_count, error_count) =
     (case os_scandir (fsys s) topdir of
        None \<Rightarrow> walk_loop e stack (s, compressed_count, error_count)
      | Some (dirs, files) \<Rightarrow>
          walk_loop e (map (os_path_join topdir) dirs @ stack)
            (files_loop e topdir files (s, compressed_count, error_count)))"
  by pat_completeness auto
termination
proof (relation "inv_image (less_than <*lex*> less_than) walk_measure")
  show "wf (inv_image (less_than <*lex*> less_than) walk_measure)"
    by (intro wf_inv_image wf_lex_prod wf_less_than)
next
  fix e and topdir stack and s :: state and cc ec
  show "((e, stack, s, cc, ec), (e, topdir # stack, s, cc, ec))
          \<in> inv_image (less_than <*lex*> less_than) walk_measure"
    by (auto simp: walk_measure_def)
next
  fix e :: env and topdir stack and s :: state and cc ec x2 dirs files
  assume sc: "os_scandir (fsys s) topdir = Some x2" and x2: "(dirs, files) = x2"
  from sc x2 have isd: "map_of (fsys s) topdir = Some Dir" and dd: "distinct dirs"
    by (auto simp: os_scandir_def os_listdir_def children_def split: option.splits entry.splits sum.splits)
  obtain s' cc' ec' where fl: "files_loop e topdir files (s, cc, ec) = (s', cc', ec')"
    by (cases "files_loop e topdir files (s, cc, ec)")
  have eq: "\<And>p. dirs_below (fsys s') p = dirs_below (fsys s) p"
    using dirs_below_files_loop [of e topdir files "(s, cc, ec)"] by (simp add: fl)
  have "(\<Sum>d\<leftarrow>dirs. card (dirs_below (fsys s) (topdir @ [d]))) < card (dirs_below (fsys s) topdir)"
    by (rule dirs_below_children [OF isd dd])
  then show "((e, map (os_path_join topdir) dirs @ stack, files_loop e topdir files (s, cc, ec)),
           (e, topdir # stack, s, cc, ec)) \<in> inv_image (less_than <*lex*> less_than) walk_measure"
    by (simp add: fl walk_measure_def eq os_path_join_def comp_def)
qed

text \<open>The cleaning loop over the items of the output directory.\<close>

fun clean_loop :: "path \<Rightarrow> string list \<Rightarrow> filesystem \<Rightarrow> oserror option \<times> filesystem" where
  "clean_loop output [] s = (None, s)"
| "clean_loop output (item # items) s =
     (let item_path = os_path_join output item in
      if os_path_isfile s item_path then
        (case os_remove s item_path of
           Inl err \<Rightarrow> (Some err, s)
         | Inr s' \<Rightarrow> clean_loop output items s')
      else if os_path_isdir s item_path then
        (case shutil_rmtree s item_path of
           Inl err \<Rightarrow> (Some err, s)
         | Inr s' \<Rightarrow> clean_loop output items s')
      else clean_loop output items s)"

text \<open>
  The first half of the \<^verbatim>\<open>try\<close> statement: the output directory is made, emptied and
  filled with a copy of the build directory. An exception leaves what was done so far.
\<close>

definition prepare_output :: "env \<Rightarrow> state \<Rightarrow> oserror option \<times> state" where
  "prepare_output e s =
     (case os_makedirs (fsys s) (OUTPUT_DIR e) of
        Inl err \<Rightarrow> (Some err, s)
      | Inr f1 \<Rightarrow>
          (case os_listdir f1 (OUTPUT_DIR e) of
             Inl err \<Rightarrow> (Some err, s\<lparr>fsys := f1\<rparr>)
           | Inr items \<Rightarrow>
               (case clean_loop (OUTPUT_DIR e) items f1 of
                  (Some err, f2) \<Rightarrow> (Some err, s\<lparr>fsys := f2\<rparr>)
                | (None, f2) \<Rightarrow>
                    (let data_dir = os_path_dirname (OUTPUT_DIR e) in
                     case os_makedirs f2 data_dir of
                       Inl err \<Rightarrow> (Some err, s\<lparr>fsys := f2\<rparr>)
                     | Inr f3 \<Rightarrow>
                         (let s3 = py_print (Copying_files (BUILD_DIR e) (OUTPUT_DIR e)) (s\<lparr>fsys := f3\<rparr>) in
                          case shutil_copytree f3 (BUILD_DIR e) (OUTPUT_DIR e) of
                            (f4, []) \<Rightarrow> (None, s3\<lparr>fsys := f4\<rparr>)
                          | (f4, err # errs) \<Rightarrow> (Some err, s3\<lparr>fsys := f4\<rparr>))))))"

definition process_frontend_files :: "env \<Rightarrow> state \<Rightarrow> bool \<times> state" where
  "process_frontend_files e s =
     (let s0 = py_print (Processing_frontend_files_from (BUILD_DIR e)) s in
      if \<not> os_path_exists (fsys s0) (BUILD_DIR e) then
        (False, py_print (ERROR_Build_directory_not_found (BUILD_DIR e)) s0)
      else
        (case prepare_output e s0 of
           (Some err, s1) \<Rightarrow> (False, py_print Error_processing_frontend_files s1)
         | (None, s1) \<Rightarrow>
             (case walk_loop e [OUTPUT_DIR e] (py_print Compressing_files s1, 0, 0) of
                (s2, compressed_count, error_count) \<Rightarrow>
                  (error_count = 0,
                   py_print (Frontend_files_processed compressed_count error_count) s2))))"

section \<open>The Version Stamper (version.py)\<close>

text \<open>
  The script works on three files of the project directory and on the process
  environment. The build-info file is read with \<^verbatim>\<open>json.load\<close> and written with
  \<^verbatim>\<open>json.dump\<close>, so the model keeps it as the value the parser makes of it (or as
  unparsable text); numbers are the integers, as the build number of the spec's data model.
  The header is written below the directory \<^verbatim>\<open>src\<close>, which has to exist. The two readings
  of the clock are parameters.
\<close>

datatype json =
    JNull | JBool bool | JInt int | JString string | JArray "json list"
  | JObject "(string \<times> json) list"

datatype json_file = Unparsable | Document json


record project =
  platformio_ini :: "string option"
  build_info :: "json_file option"
  src_dir :: bool
  version_h :: "string option"
  environ :: "(string \<times> string) list"
  printed :: "string list"

text \<open>
  The regular expression \<^verbatim>\<open>version\s*=\s*"([^"]+)"\<close> matched at the start of a text
  (\<open>match_here\<close>, giving group 1), and \<^verbatim>\<open>re.search\<close>, which tries every start from the
  left. White space is what \<^verbatim>\<open>\s\<close> matches among the code points below 256.
\<close>

definition quote :: char where
  "quote = CHR 0x22"

definition newline :: char where
  "newline = CHR 0x0A"

definition is_space :: "char \<Rightarrow> bool" where
  "is_space c = ((of_char c :: nat) \<in> {9, 10, 11, 12, 13, 28, 29, 30, 31, 32, 133, 160})"

fun skip_space :: "string \<Rightarrow> string" where
  "skip_space [] = []"
| "skip_space (c # cs) = (if is_space c then skip_space cs else c # cs)"

definition match_here :: "string \<Rightarrow> string option" where
  "match_here t =
     (if prefix ''version'' t then
        (case skip_space (drop 7 t) of
           [] \<Rightarrow> None
         | c # r1 \<Rightarrow>
             if c = CHR ''='' then
               (case skip_space r1 of
                  [] \<Rightarrow> None
                | d # r2 \<Rightarrow>
                    if d = quote then
                      (let v = takeWhile (\<lambda>x. x \<noteq> quote) r2;
                           rest = dropWhile (\<lambda>x. x \<noteq> quote) r2
                       in if v \<noteq> [] \<and> rest \<noteq> [] then Some v else None)
                    else None)
             else None)
      else None)"

fun re_search :: "string \<Rightarrow> string option" where
  "re_search [] = None"
| "re_search (c # cs) =
     (case match_here (c # cs) of
        Some v \<Rightarrow> Some v
      | None \<Rightarrow> re_search cs)"

definition get_semantic_version :: "project \<Rightarrow> string outcome" where
  "get_semantic_version p =
     (case platformio_ini p of
        None \<Rightarrow> Raised
      | Some content \<Rightarrow>
          (case re_search content of
             Some group1 \<Rightarrow> Returned group1
           | None \<Rightarrow> Returned ''1.0.0''))"










section \<open>A small project to run the scripts on\<close>

definition demo_env :: env where
  "demo_env = \<lparr>project_dir = [''work'', ''firmware''],
               gzip_bytes = (\<lambda>c. ''gz:'' @ c),
               fault_at = (\<lambda>p. None),
               command = (\<lambda>argv dir f. (Exited 0, f))\<rparr>"

definition demo_fs :: filesystem where
  "demo_fs =
     [([], Dir), ([''work''], Dir), ([''work'', ''firmware''], Dir),
      ([''work'', ''Modular_Macropad_Front_End_v2''], Dir),
      ([''work'', ''Modular_Macropad_Front_End_v2'', ''build''], Dir),
      ([''work'', ''Modular_Macropad_Front_End_v2'', ''build'', ''index.html''], File ''<html>''),
      ([''work'', ''Modular_Macropad_Front_End_v2'', ''build'', ''app''], Dir),
      ([''work'', ''Modular_Macropad_Front_End_v2'', ''build'', ''app'', ''main.js''], File ''js'')]"

definition demo_state :: state where
  "demo_state = \<lparr>fsys = demo_fs, cwd = [''work'', ''firmware''], trace = []\<rparr>"

definition with_files :: "string list \<Rightarrow> filesystem" where
  "with_files names =
     demo_fs @ map (\<lambda>n. ([''work'', ''Modular_Macropad_Front_End_v2'', n], File [])) names"

lemma demo_FRONTEND_DIR: "FRONTEND_DIR demo_env = [''work'', ''Modular_Macropad_Front_End_v2'']"
  by (simp add: FRONTEND_DIR_def demo_env_def os_path_join_def os_path_dirname_def)

lemma demo_BUILD_DIR:
  "BUILD_DIR demo_env = [''work'', ''Modular_Macropad_Front_End_v2'', ''build'']"
  by (simp add: BUILD_DIR_def demo_FRONTEND_DIR os_path_join_def)

lemma demo_OUTPUT_DIR: "OUTPUT_DIR demo_env = [''work'', ''firmware'', ''data'', ''web'']"
  by (simp add: OUTPUT_DIR_def demo_env_def os_path_join_def)

text \<open>The definitions of the file system calls, for evaluating them on the project.\<close>

lemmas fs_eval = os_path_exists_def os_path_isfile_def os_path_isdir_def os_path_join_def
  os_path_dirname_def os_listdir_def children_def os_remove_def shutil_rmtree_def os_mkdir_def
  mkdir_exist_ok_def write_file_def gz_name_def endswith_def

section \<open>get_package_manager\<close>

text \<open>A marker is an entry of the given name in the frontend directory.\<close>

definition marker :: "env \<Rightarrow> filesystem \<Rightarrow> string \<Rightarrow> bool" where
  "marker e s name = (map_of s (FRONTEND_DIR e @ [name]) \<noteq> None)"

text \<open>
  Claim C6. The package manager is found from the markers in the order pnpm, yarn, npm:
  the pnpm lock file decides for pnpm whatever else is there; without it the yarn lock file
  decides for yarn; without both, the npm lock file or the manifest decides for npm; a
  directory with none of the four markers gives \<open>None\<close>. The function reads the file
  system and yields the answer only: it has no state to return.
\<close>

theorem get_package_manager_priority:
  "(marker e s ''pnpm-lock.yaml'' \<longrightarrow> get_package_manager e s = Some ''pnpm'') \<and>
   (\<not> marker e s ''pnpm-lock.yaml'' \<and> marker e s ''yarn.lock'' \<longrightarrow>
      get_package_manager e s = Some ''yarn'') \<and>
   (\<not> marker e s ''pnpm-lock.yaml'' \<and> \<not> marker e s ''yarn.lock'' \<and>
      (marker e s ''package-lock.json'' \<or> marker e s ''package.json'') \<longrightarrow>
      get_package_manager e s = Some ''npm'') \<and>
   (\<not> marker e s ''pnpm-lock.yaml'' \<and> \<not> marker e s ''yarn.lock'' \<and>
      \<not> marker e s ''package-lock.json'' \<and> \<not> marker e s ''package.json'' \<longrightarrow>
      get_package_manager e s = None)"
  by (simp add: get_package_manager_def marker_def os_path_exists_def os_path_join_def)

theorem get_package_manager_priority_witness:
  "marker demo_env (with_files [''package.json'', ''yarn.lock'', ''pnpm-lock.yaml'']) ''pnpm-lock.yaml'' \<and>
   get_package_manager demo_env (with_files [''package.json'', ''yarn.lock'', ''pnpm-lock.yaml'']) = Some ''pnpm'' \<and>
   \<not> marker demo_env (with_files [''package.json'', ''yarn.lock'']) ''pnpm-lock.yaml'' \<and>
   marker demo_env (with_files [''package.json'', ''yarn.lock'']) ''yarn.lock'' \<and>
   get_package_manager demo_env (with_files [''package.json'', ''yarn.lock'']) = Some ''yarn'' \<and>
   \<not> marker demo_env (with_files [''package.json'']) ''pnpm-lock.yaml'' \<and>
   \<not> marker demo_env (with_files [''package.json'']) ''yarn.lock'' \<and>
   marker demo_env (with_files [''package.json'']) ''package.json'' \<and>
   get_package_manager demo_env (with_files [''package.json'']) = Some ''npm'' \<and>
   \<not> marker demo_env demo_fs ''pnpm-lock.yaml'' \<and> \<not> marker demo_env demo_fs ''yarn.lock'' \<and>
   \<not> marker demo_env demo_fs ''package-lock.json'' \<and> \<not> marker demo_env demo_fs ''package.json'' \<and>
   get_package_manager demo_env demo_fs = None"
  using get_package_manager_priority [of demo_env "with_files [''package.json'', ''yarn.lock'', ''pnpm-lock.yaml'']"]
    get_package_manager_priority [of demo_env "with_files [''package.json'', ''yarn.lock'']"]
    get_package_manager_priority [of demo_env "with_files [''package.json'']"]
    get_package_manager_priority [of demo_env demo_fs]
  by (simp add: marker_def demo_FRONTEND_DIR demo_fs_def with_files_def)

section \<open>build_frontend without a package manager\<close>

text \<open>
  Claim C9. When the frontend directory exists and none of the four markers is there,
  \<open>build_frontend\<close> returns failure, the file system and the working directory are
  what they were, and all that was added to the trace is two printed lines: the working
  directory was not changed and no command was spawned.
\<close>

theorem build_frontend_no_package_manager:
  assumes "os_path_exists (fsys s) (FRONTEND_DIR e)"
    and "\<not> marker e (fsys s) ''pnpm-lock.yaml''" and "\<not> marker e (fsys s) ''yarn.lock''"
    and "\<not> marker e (fsys s) ''package-lock.json''" and "\<not> marker e (fsys s) ''package.json''"
  shows "build_frontend e s =
           (Returned False,
            s\<lparr>trace := trace s @ [Print Building_SvelteKit_frontend, Print No_package_manager_detected]\<rparr>)"
proof -
  have "get_package_manager e (fsys s) = None"
    using assms(2-5)
    by (simp add: get_package_manager_def marker_def os_path_exists_def os_path_join_def)
  then show ?thesis
    using assms(1) by (simp add: build_frontend_def py_print_def Let_def)
qed

theorem build_frontend_no_package_manager_witness:
  "os_path_exists (fsys demo_state) (FRONTEND_DIR demo_env) \<and>
   \<not> marker demo_env (fsys demo_state) ''pnpm-lock.yaml'' \<and>
   \<not> marker demo_env (fsys demo_state) ''yarn.lock'' \<and>
   \<not> marker demo_env (fsys demo_state) ''package-lock.json'' \<and>
   \<not> marker demo_env (fsys demo_state) ''package.json'' \<and>
   build_frontend demo_env demo_state =
     (Returned False,
      \<lparr>fsys = demo_fs, cwd = [''work'', ''firmware''],
       trace = [Print Building_SvelteKit_frontend, Print No_package_manager_detected]\<rparr>)"
proof -
  have a: "os_path_exists (fsys demo_state) (FRONTEND_DIR demo_env)"
    by (simp add: os_path_exists_def demo_FRONTEND_DIR demo_state_def demo_fs_def)
  have b: "\<not> marker demo_env (fsys demo_state) ''pnpm-lock.yaml''"
    "\<not> marker demo_env (fsys demo_state) ''yarn.lock''"
    "\<not> marker demo_env (fsys demo_state) ''package-lock.json''"
    "\<not> marker demo_env (fsys demo_state) ''package.json''"
    by (simp_all add: marker_def demo_FRONTEND_DIR demo_state_def demo_fs_def)
  show ?thesis
    using a b build_frontend_no_package_manager [OF a b]
    by (simp add: demo_state_def)
qed

section \<open>process_frontend_files without a build directory\<close>

text \<open>
  Claim C4. When the build directory does not exist, \<open>process_frontend_files\<close> returns
  failure and the state it leaves is the state it found with two printed lines added:
  the file system, and the output directory in it, is untouched.
\<close>

theorem process_frontend_files_no_build_dir:
  assumes "\<not> os_path_exists (fsys s) (BUILD_DIR e)"
  shows "process_frontend_files e s =
           (False,
            s\<lparr>trace := trace s @ [Print (Processing_frontend_files_from (BUILD_DIR e)),
                                   Print (ERROR_Build_directory_not_found (BUILD_DIR e))]\<rparr>)"
  using assms by (simp add: process_frontend_files_def py_print_def Let_def)

definition stale_output :: filesystem where
  "stale_output =
     [([], Dir), ([''work''], Dir), ([''work'', ''firmware''], Dir),
      ([''work'', ''firmware'', ''data''], Dir), ([''work'', ''firmware'', ''data'', ''web''], Dir),
      ([''work'', ''firmware'', ''data'', ''web'', ''old.js.gz''], File ''old'')]"

theorem process_frontend_files_no_build_dir_witness:
  "\<not> os_path_exists stale_output (BUILD_DIR demo_env) \<and>
   process_frontend_files demo_env \<lparr>fsys = stale_output, cwd = [''work''], trace = []\<rparr> =
     (False,
      \<lparr>fsys = stale_output, cwd = [''work''],
       trace = [Print (Processing_frontend_files_from (BUILD_DIR demo_env)),
                Print (ERROR_Build_directory_not_found (BUILD_DIR demo_env))]\<rparr>)"
proof -
  have a: "\<not> os_path_exists (fsys \<lparr>fsys = stale_output, cwd = [''work''], trace = []\<rparr>) (BUILD_DIR demo_env)"
    by (simp add: os_path_exists_def demo_BUILD_DIR stale_output_def)
  show ?thesis
    using a process_frontend_files_no_build_dir [OF a] by simp
qed

section \<open>compress_file\<close>

lemma gz_name_neq: "gz_name p \<noteq> p"
proof
  assume h: "gz_name p = p"
  show False
  proof (cases "p = []")
    case True
    with h show False by (simp add: gz_name_def)
  next
    case False
    then have "p = butlast p @ [last p]" by simp
    with h False have "butlast p @ [last p @ ''.gz''] = butlast p @ [last p]"
      by (simp add: gz_name_def)
    then show False by simp
  qed
qed

text \<open>
  Claim C10. For a file \<open>p\<close> with content \<open>c\<close>: when \<open>compress_file\<close> returns success the
  original is gone and its sibling holds the complete compressed bytes; when it returns
  failure the original is still there with its content. So the original is never gone
  without the sibling being complete. Every I/O fault makes the call return failure.
\<close>

theorem compress_file_keeps_original_until_done:
  assumes "map_of (fsys s) p = Some (File c)"
  shows "(case compress_file e s p of
            (True, s') \<Rightarrow>
              map_of (fsys s') p = None \<and>
              map_of (fsys s') (gz_name p) = Some (File (gzip_bytes e c))
          | (False, s') \<Rightarrow> map_of (fsys s') p = Some (File c)) \<and>
         (fault_at e p \<noteq> None \<longrightarrow> \<not> fst (compress_file e s p))"
  using assms gz_name_neq [of p]
  by (auto simp: compress_file_def compress_try_def write_file_def os_remove_def py_print_def
      update_conv' delete_conv' Let_def
      split: option.splits entry.splits sum.splits io_fault.splits if_splits)

text \<open>The call on a file of the project, without a fault and with one during the copy.\<close>

definition index_html :: path where
  "index_html = [''work'', ''Modular_Macropad_Front_End_v2'', ''build'', ''index.html'']"

definition faulty_env :: env where
  "faulty_env = demo_env\<lparr>fault_at := (\<lambda>p. if p = index_html then Some (Fault_copy ''g'') else None)\<rparr>"

theorem compress_file_keeps_original_until_done_witness:
  "map_of (fsys demo_state) index_html = Some (File ''<html>'') \<and>
   fst (compress_file demo_env demo_state index_html) \<and>
   map_of (fsys (snd (compress_file demo_env demo_state index_html))) index_html = None \<and>
   map_of (fsys (snd (compress_file demo_env demo_state index_html))) (gz_name index_html)
     = Some (File ''gz:<html>'') \<and>
   \<not> fst (compress_file faulty_env demo_state index_html) \<and>
   map_of (fsys (snd (compress_file faulty_env demo_state index_html))) index_html
     = Some (File ''<html>'') \<and>
   map_of (fsys (snd (compress_file faulty_env demo_state index_html))) (gz_name index_html)
     = Some (File ''g'')"
proof -
  have a: "map_of (fsys demo_state) index_html = Some (File ''<html>'')"
    by (simp add: demo_state_def demo_fs_def index_html_def)
  have g: "gzip_bytes demo_env ''<html>'' = ''gz:<html>''"
    by (simp add: demo_env_def)
  have f: "fault_at faulty_env index_html = Some (Fault_copy ''g'')" "fault_at demo_env index_html = None"
    by (simp_all add: faulty_env_def demo_env_def)
  have ok: "compress_file demo_env demo_state index_html =
     (True, demo_state\<lparr>fsys := AList.delete index_html (AList.update (gz_name index_html) (File ''gz:<html>'') (AList.update (gz_name index_html) (File []) demo_fs))\<rparr>)"
    by (simp add: compress_file_def compress_try_def demo_state_def demo_fs_def index_html_def
        fs_eval faulty_env_def demo_env_def)
  have bad: "compress_file faulty_env demo_state index_html =
     (False, py_print (Error_compressing_file index_html) (demo_state\<lparr>fsys := AList.update (gz_name index_html) (File ''g'') (AList.update (gz_name index_html) (File []) demo_fs)\<rparr>))"
    by (simp add: compress_file_def compress_try_def demo_state_def demo_fs_def index_html_def
        fs_eval faulty_env_def demo_env_def)
  show ?thesis
    using a compress_file_keeps_original_until_done [OF a, of demo_env]
      compress_file_keeps_original_until_done [OF a, of faulty_env]
    by (simp add: ok bad g f py_print_def update_conv')
qed


section \<open>build_frontend and the working directory\<close>

lemma os_chdir_cwd: "os_chdir p s = Inr s' \<Longrightarrow> cwd s' = p \<and> fsys s' = fsys s"
  by (auto simp: os_chdir_def split: option.splits entry.splits)

lemma os_chdir_fails: "os_chdir p s = Inl err \<Longrightarrow> \<not> os_path_isdir (fsys s) p"
  by (auto simp: os_chdir_def os_path_isdir_def split: option.splits entry.splits)

lemma subprocess_run_cwd: "subprocess_run e argv s = (x, s') \<Longrightarrow> cwd s' = cwd s"
  by (auto simp: subprocess_run_def Let_def split: prod.splits proc_result.splits if_splits)

lemma build_try_cwd:
  assumes "build_try e pm original_dir s = (r, s')"
  shows "case r of
           Inr b \<Rightarrow> cwd s' = original_dir
         | Inl x \<Rightarrow> cwd s' = cwd s"
proof -
  have p: "\<And>m t. cwd (py_print m t) = cwd t" by (simp add: py_print_def)
  show ?thesis
    using assms
    by (auto simp: build_try_def p Let_def
        dest!: subprocess_run_cwd os_chdir_cwd
        split: prod.splits option.splits sum.splits if_splits)
qed

lemma build_handler_cwd:
  assumes "build_handler m original_dir s = (r, s')"
  shows "(r = Returned False \<and> cwd s' = original_dir) \<or>
         (r = Raised \<and> cwd s' = cwd s \<and> \<not> os_path_isdir (fsys s') original_dir)"
  using assms
  by (auto simp: build_handler_def py_print_def Let_def os_chdir_def os_path_isdir_def
      split: sum.splits option.splits entry.splits)

text \<open>
  Claim C3, amended. On every path on which \<open>build_frontend\<close> returns (success, a
  command that exits with an error, a missing build directory after the build, an
  unexpected exception that the handler catches) the working directory is what it was
  at the call. It is not restored in one case only: the directory it was no longer exists
  when the script changes back to it; then \<^verbatim>\<open>os.chdir\<close> raises, in the handler too, the
  exception leaves \<open>build_frontend\<close> and the working directory stays the frontend
  directory.
\<close>

theorem build_frontend_restores_cwd:
  assumes "build_frontend e s = (r, s')"
  shows "(r \<noteq> Raised \<longrightarrow> cwd s' = cwd s) \<and>
         (cwd s' = cwd s \<or> (cwd s' = FRONTEND_DIR e \<and> \<not> os_path_isdir (fsys s') (cwd s)))"
proof -
  have p: "\<And>m t. cwd (py_print m t) = cwd t" by (simp add: py_print_def)
  show ?thesis
    using assms
    by (auto simp: build_frontend_def p Let_def os_getcwd_def
        dest!: build_try_cwd build_handler_cwd os_chdir_cwd
        split: prod.splits option.splits sum.splits if_splits exn.splits)
qed

text \<open>
  The case that is not restored: the script is started in a directory below the build
  directory, and the build removes that directory. The working directory is changed to
  the frontend directory, the build succeeds, and both attempts to change back raise.
\<close>

definition old_dir :: path where
  "old_dir = [''work'', ''Modular_Macropad_Front_End_v2'', ''build'', ''old'']"

definition rebuilding_env :: env where
  "rebuilding_env =
     demo_env\<lparr>command := (\<lambda>argv dir f. (Exited 0, filter (\<lambda>(q, e). \<not> prefix old_dir q) f))\<rparr>"

definition inside_build :: state where
  "inside_build =
     \<lparr>fsys = with_files [''package.json'', ''node_modules''] @ [(old_dir, Dir)],
      cwd = old_dir, trace = []\<rparr>"

lemma rebuilding_dirs:
  "FRONTEND_DIR rebuilding_env = [''work'', ''Modular_Macropad_Front_End_v2'']"
  "BUILD_DIR rebuilding_env = [''work'', ''Modular_Macropad_Front_End_v2'', ''build'']"
  by (simp_all add: BUILD_DIR_def FRONTEND_DIR_def rebuilding_env_def demo_env_def
      os_path_join_def os_path_dirname_def)

lemma rebuilding_command:
  "command rebuilding_env argv dir f = (Exited 0, filter (\<lambda>(q, e). \<not> prefix old_dir q) f)"
  by (simp add: rebuilding_env_def)

theorem build_frontend_cwd_counterexample:
  "fst (build_frontend rebuilding_env inside_build) = Raised \<and>
   Chdir (FRONTEND_DIR rebuilding_env) \<in> set (trace (snd (build_frontend rebuilding_env inside_build))) \<and>
   cwd inside_build = old_dir \<and>
   cwd (snd (build_frontend rebuilding_env inside_build)) = FRONTEND_DIR rebuilding_env \<and>
   cwd (snd (build_frontend rebuilding_env inside_build)) \<noteq> cwd inside_build"
  by (simp add: build_frontend_def build_try_def build_handler_def get_package_manager_def
      os_getcwd_def os_chdir_def subprocess_run_def py_print_def rebuilding_dirs
      rebuilding_command inside_build_def with_files_def demo_fs_def old_dir_def fs_eval Let_def)

text \<open>A run that builds with npm, returns success and is back where it started.\<close>

definition npm_project :: state where
  "npm_project = \<lparr>fsys = with_files [''package.json''], cwd = [''work'', ''firmware''], trace = []\<rparr>"

lemma demo_command: "command demo_env argv dir f = (Exited 0, f)"
  by (simp add: demo_env_def)

theorem build_frontend_restores_cwd_witness:
  "fst (build_frontend demo_env npm_project) = Returned True \<and>
   Chdir (FRONTEND_DIR demo_env) \<in> set (trace (snd (build_frontend demo_env npm_project))) \<and>
   cwd (snd (build_frontend demo_env npm_project)) = cwd npm_project"
proof -
  have r: "fst (build_frontend demo_env npm_project) = Returned True \<and>
      Chdir (FRONTEND_DIR demo_env) \<in> set (trace (snd (build_frontend demo_env npm_project)))"
    by (simp add: build_frontend_def build_try_def build_handler_def get_package_manager_def
        os_getcwd_def os_chdir_def subprocess_run_def py_print_def demo_FRONTEND_DIR demo_BUILD_DIR
        demo_command npm_project_def with_files_def demo_fs_def fs_eval Let_def)
  have "build_frontend demo_env npm_project =
      (fst (build_frontend demo_env npm_project), snd (build_frontend demo_env npm_project))"
    by simp
  from build_frontend_restores_cwd [OF this] r show ?thesis by simp
qed

section \<open>Well-formed file systems\<close>

text \<open>
  A file system is well formed when no path is listed twice, the root is a directory and
  everything that exists lies in a directory. The calls of the scripts keep it so.
\<close>

definition wf_fs :: "filesystem \<Rightarrow> bool" where
  "wf_fs f = (distinct (map fst f) \<and> map_of f [] = Some Dir \<and>
              (\<forall>q x. q \<noteq> [] \<and> map_of f q = Some x \<longrightarrow> map_of f (butlast q) = Some Dir))"

lemma wf_parent: "wf_fs f \<Longrightarrow> map_of f q = Some x \<Longrightarrow> q \<noteq> [] \<Longrightarrow> map_of f (butlast q) = Some Dir"
  by (auto simp: wf_fs_def)

lemma wf_ancestor:
  assumes "wf_fs f" "map_of f (p @ r) = Some x"
  shows "map_of f p = Some Dir \<or> (r = [] \<and> map_of f p = Some x)"
  using assms(2)
proof (induction r arbitrary: x rule: rev_induct)
  case Nil
  then show ?case by simp
next
  case (snoc a r)
  have "map_of f (butlast (p @ r @ [a])) = Some Dir"
    using wf_parent [OF assms(1), of "p @ r @ [a]" x] snoc.prems by simp
  then have "map_of f (p @ r) = Some Dir" by (simp add: butlast_append)
  from snoc.IH [OF this] show ?case by auto
qed

lemma wf_below_file:
  assumes "wf_fs f" "map_of f p \<noteq> Some Dir" "strict_prefix p q"
  shows "map_of f q = None"
proof (rule ccontr)
  assume "map_of f q \<noteq> None"
  then obtain x where x: "map_of f q = Some x" by auto
  from assms(3) obtain r where r: "q = p @ r" "r \<noteq> []" by (auto simp: strict_prefix_def prefix_def)
  from wf_ancestor [OF assms(1), of p r x] x r assms(2) show False by auto
qed

lemma map_of_filter_key:
  "map_of (filter (\<lambda>(q, e). P q) f) q = (if P q then map_of f q else None)"
  by (induction f) auto

lemma gz_name_join [simp]: "gz_name (root @ [n]) = root @ [n @ ''.gz'']"
  by (simp add: gz_name_def)

lemma gz_name_nonempty [simp]: "gz_name p \<noteq> []"
  by (simp add: gz_name_def)

lemma butlast_gz_name: "p \<noteq> [] \<Longrightarrow> butlast (gz_name p) = butlast p"
  by (simp add: gz_name_def)

lemma endswith_gz [simp]: "endswith (n @ ''.gz'') ''.gz''"
  by (simp add: endswith_def suffix_def)

lemma endswith_split: "endswith m ''.gz'' \<Longrightarrow> m = take (length m - 3) m @ ''.gz''"
  by (auto simp: endswith_def suffix_def)

lemma gz_inj: "n @ ''.gz'' = m @ ''.gz'' \<Longrightarrow> n = m"
  by simp

definition ungz :: "path \<Rightarrow> path" where
  "ungz q = butlast q @ [take (length (last q) - 3) (last q)]"

lemma ungz_join [simp]: "ungz (root @ [n @ ''.gz'']) = root @ [n]"
  by (simp add: ungz_def)

lemma gz_name_ungz: "q \<noteq> [] \<Longrightarrow> endswith (last q) ''.gz'' \<Longrightarrow> gz_name (ungz q) = q"
  using endswith_split [of "last q"] by (simp add: ungz_def gz_name_def)

lemma ungz_nonempty [simp]: "ungz q \<noteq> []"
  by (simp add: ungz_def)

lemma butlast_ungz [simp]: "butlast (ungz q) = butlast q"
  by (simp add: ungz_def)

text \<open>\<open>compress_try\<close> reads and changes the file, its sibling and nothing else.\<close>

lemma compress_try_local:
  "q \<noteq> p \<Longrightarrow> q \<noteq> gz_name p \<Longrightarrow> map_of (snd (compress_try e f p)) q = map_of f q"
  by (auto simp: compress_try_def write_file_def os_remove_def update_conv' delete_conv' Let_def
      split: option.splits entry.splits sum.splits io_fault.splits if_splits)

lemma compress_try_cong:
  assumes "map_of g p = map_of f p" "map_of g (gz_name p) = map_of f (gz_name p)"
    "map_of g (butlast (gz_name p)) = map_of f (butlast (gz_name p))"
  shows "fst (compress_try e g p) = fst (compress_try e f p) \<and>
         map_of (snd (compress_try e g p)) p = map_of (snd (compress_try e f p)) p \<and>
         map_of (snd (compress_try e g p)) (gz_name p) = map_of (snd (compress_try e f p)) (gz_name p)"
  using assms gz_name_neq [of p]
  by (auto simp: compress_try_def write_file_def os_remove_def os_path_isdir_def
      update_conv' delete_conv' Let_def
      split: option.splits entry.splits sum.splits io_fault.splits if_splits)

lemma compress_try_ok:
  assumes "fst (compress_try e f p) = None"
  shows "\<exists>c. map_of f p = Some (File c) \<and> map_of (snd (compress_try e f p)) p = None \<and>
             map_of (snd (compress_try e f p)) (gz_name p) = Some (File (gzip_bytes e c)) \<and>
             map_of f (gz_name p) \<noteq> Some Dir"
  using assms gz_name_neq [of p]
  by (auto simp: compress_try_def write_file_def os_remove_def os_path_isdir_def
      update_conv' delete_conv' Let_def
      split: option.splits entry.splits sum.splits io_fault.splits if_splits)

lemma wf_distinct: "wf_fs f \<Longrightarrow> distinct (map fst f)"
  by (simp add: wf_fs_def)

lemma compress_try_distinct:
  "distinct (map fst f) \<Longrightarrow> distinct (map fst (snd (compress_try e f p)))"
  by (auto simp: compress_try_def write_file_def os_remove_def Let_def
      intro!: distinct_update distinct_delete
      split: option.splits entry.splits sum.splits io_fault.splits if_splits)

lemma compress_try_wf:
  assumes "wf_fs f"
  shows "wf_fs (snd (compress_try e f p))"
proof -
  let ?g = "snd (compress_try e f p)"
  have dir: "\<And>q. (map_of ?g q = Some Dir) = (map_of f q = Some Dir)"
    by (rule compress_try_dir)
  have new: "\<And>q x. map_of ?g q = Some x \<Longrightarrow> map_of f q = None \<Longrightarrow>
      q = gz_name p \<and> map_of f (butlast q) = Some Dir"
    by (auto simp: compress_try_def write_file_def os_remove_def os_path_isdir_def
      update_conv' delete_conv' Let_def
      split: option.splits entry.splits sum.splits io_fault.splits if_splits)
  show ?thesis
    unfolding wf_fs_def
  proof (intro conjI allI impI)
    show "map_of ?g [] = Some Dir" using assms by (simp add: dir wf_fs_def)
  next
    show "distinct (map fst ?g)" using assms by (simp add: compress_try_distinct wf_fs_def)
  next
    fix q x assume a: "q \<noteq> [] \<and> map_of ?g q = Some x"
    show "map_of ?g (butlast q) = Some Dir"
    proof (cases "map_of f q")
      case None
      with a new [of q x] show ?thesis by (auto simp: dir)
    next
      case (Some y)
      with a assms show ?thesis by (simp add: dir wf_parent)
    qed
  qed
qed

section \<open>The files of one directory\<close>

text \<open>
  What the walk leaves at a path below a directory it has visited: a file that is to be
  compressed holds what \<open>compress_try\<close> leaves of it, the sibling with the added suffix
  holds what \<open>compress_try\<close> of the file writes there, everything else is as before.
\<close>

definition compressible :: "filesystem \<Rightarrow> path \<Rightarrow> bool" where
  "compressible f q = (q \<noteq> [] \<and> os_path_isfile f q \<and> \<not> endswith (last q) ''.gz'')"

definition walked :: "env \<Rightarrow> filesystem \<Rightarrow> path \<Rightarrow> entry option" where
  "walked e f q =
     (if compressible f q then map_of (snd (compress_try e f q)) q
      else if q \<noteq> [] \<and> endswith (last q) ''.gz'' \<and> compressible f (ungz q)
           then map_of (snd (compress_try e f (ungz q))) q
      else map_of f q)"

lemma compressible_cong: "map_of g q = map_of f q \<Longrightarrow> compressible g q = compressible f q"
  by (simp add: compressible_def os_path_isfile_def)

lemma walked_cong:
  assumes q: "map_of g q = map_of f q" and gz: "map_of g (gz_name q) = map_of f (gz_name q)"
    and par: "map_of g (butlast q) = map_of f (butlast q)"
    and un: "endswith (last q) ''.gz'' \<Longrightarrow> map_of g (ungz q) = map_of f (ungz q)"
  shows "walked e g q = walked e f q"
proof (cases "compressible f q")
  case True
  then have ne: "q \<noteq> []" by (simp add: compressible_def)
  have "map_of (snd (compress_try e g q)) q = map_of (snd (compress_try e f q)) q"
    using compress_try_cong [OF q gz, of e] par ne by (simp add: butlast_gz_name)
  with True compressible_cong [OF q] show ?thesis by (simp add: walked_def)
next
  case False
  note nc = False
  show ?thesis
  proof (cases "q \<noteq> [] \<and> endswith (last q) ''.gz'' \<and> compressible f (ungz q)")
    case True
    then have u: "map_of g (ungz q) = map_of f (ungz q)" using un by simp
    have g: "gz_name (ungz q) = q" using True by (simp add: gz_name_ungz)
    have "map_of (snd (compress_try e g (ungz q))) (gz_name (ungz q)) =
          map_of (snd (compress_try e f (ungz q))) (gz_name (ungz q))"
      using compress_try_cong [OF u, of e] q par by (simp add: g)
    with True nc compressible_cong [OF q] compressible_cong [OF u] show ?thesis
      by (simp add: walked_def g)
  next
    case False
    have "compressible g (ungz q) = compressible f (ungz q)" if "endswith (last q) ''.gz''"
      using compressible_cong [OF un [OF that]] .
    with False nc compressible_cong [OF q] q show ?thesis
      by (auto simp: walked_def)
  qed
qed

lemma compress_try_isfile:
  "os_path_isfile f q \<Longrightarrow> q \<noteq> p \<Longrightarrow> os_path_isfile (snd (compress_try e f p)) q"
  by (auto simp: compress_try_def write_file_def os_remove_def os_path_isfile_def os_path_isdir_def
      update_conv' delete_conv' Let_def
      split: option.splits entry.splits sum.splits io_fault.splits if_splits)

lemma compress_file_fsys:
  "fsys (snd (compress_file e s p)) = snd (compress_try e (fsys s) p)"
  by (simp add: compress_file_def py_print_def split: prod.splits option.splits)

lemma compress_file_fst:
  "fst (compress_file e s p) = (fst (compress_try e (fsys s) p) = None)"
  by (simp add: compress_file_def py_print_def split: prod.splits option.splits)

definition touched :: "path \<Rightarrow> string list \<Rightarrow> path set" where
  "touched root names =
     {q. \<exists>n\<in>set names. \<not> endswith n ''.gz'' \<and> (q = root @ [n] \<or> q = root @ [n @ ''.gz''])}"

definition compressed_ok :: "env \<Rightarrow> filesystem \<Rightarrow> path \<Rightarrow> bool" where
  "compressed_ok e f p = (fst (compress_try e f p) = None)"

lemma endswith_gz_gz [simp]: "endswith (m @ ''.gz.gz'') ''.gz''"
proof -
  have "m @ ''.gz.gz'' = (m @ ''.gz'') @ ''.gz''" by simp
  then show ?thesis unfolding endswith_def suffix_def by blast
qed

lemma not_gz_neq: "\<not> endswith n ''.gz'' \<Longrightarrow> n \<noteq> m @ ''.gz''"
  by auto

lemma files_loop_char:
  assumes "distinct names" "\<forall>n\<in>set names. os_path_isfile (fsys s) (root @ [n])"
    and "files_loop e root names (s, cc, ec) = (s1, cc1, ec1)"
  shows "(\<forall>q. map_of (fsys s1) q =
            (if q \<in> touched root names then walked e (fsys s) q else map_of (fsys s) q)) \<and>
         cc1 = cc + length (filter (\<lambda>n. \<not> endswith n ''.gz'' \<and> compressed_ok e (fsys s) (root @ [n])) names) \<and>
         ec1 = ec + length (filter (\<lambda>n. \<not> endswith n ''.gz'' \<and> \<not> compressed_ok e (fsys s) (root @ [n])) names)"
  using assms
proof (induction names arbitrary: s cc ec)
  case Nil
  then show ?case by (simp add: touched_def)
next
  case (Cons n ns)
  show ?case
  proof (cases "endswith n ''.gz''")
    case True
    with Cons.prems have r: "files_loop e root ns (s, cc, ec) = (s1, cc1, ec1)"
      by (simp add: os_path_join_def)
    have t: "touched root (n # ns) = touched root ns" using True by (auto simp: touched_def)
    from Cons.IH [OF _ _ r] Cons.prems(1,2) True show ?thesis by (simp add: t)
  next
    case False
    let ?p = "root @ [n]"
    let ?f = "fsys s"
    define sa where "sa = snd (compress_file e s ?p)"
    define b where "b = fst (compress_file e s ?p)"
    have cf: "compress_file e s ?p = (b, sa)" by (simp add: sa_def b_def)
    have fa: "fsys sa = snd (compress_try e ?f ?p)" by (simp add: sa_def compress_file_fsys)
    have bb: "b = compressed_ok e ?f ?p" by (simp add: b_def compress_file_fst compressed_ok_def)
    have r: "files_loop e root ns (sa, if b then cc + 1 else cc, if b then ec else ec + 1) = (s1, cc1, ec1)"
      using Cons.prems(3) False cf by (cases b) (simp_all add: os_path_join_def)
    have agree: "\<And>q. q \<noteq> ?p \<Longrightarrow> q \<noteq> root @ [n @ ''.gz''] \<Longrightarrow> map_of (fsys sa) q = map_of ?f q"
      using compress_try_local [of _ ?p e ?f] by (simp add: fa)
    have files': "\<forall>m\<in>set ns. os_path_isfile (fsys sa) (root @ [m])"
      using Cons.prems(1,2) by (auto simp: fa intro!: compress_try_isfile)
    have d: "distinct ns" and nn: "n \<notin> set ns" using Cons.prems(1) by auto
    note IH = Cons.IH [OF d files' r]
    have isf: "os_path_isfile ?f ?p" using Cons.prems(2) by simp
    have comp: "compressible ?f ?p" using isf False by (simp add: compressible_def)
    have same: "\<And>m. m \<in> set ns \<Longrightarrow> \<not> endswith m ''.gz'' \<Longrightarrow>
        compressed_ok e (fsys sa) (root @ [m]) = compressed_ok e ?f (root @ [m])"
    proof -
      fix m assume m: "m \<in> set ns" "\<not> endswith m ''.gz''"
      then have mn: "m \<noteq> n" using nn by auto
      have a1: "map_of (fsys sa) (root @ [m]) = map_of ?f (root @ [m])"
        using mn m(2) by (intro agree) (auto simp: not_gz_neq)
      have a2: "map_of (fsys sa) (gz_name (root @ [m])) = map_of ?f (gz_name (root @ [m]))"
        using mn False by (intro agree) (auto simp: not_gz_neq)
      have a3: "map_of (fsys sa) (butlast (gz_name (root @ [m]))) = map_of ?f (butlast (gz_name (root @ [m])))"
        by (intro agree) auto
      have "fst (compress_try e (fsys sa) (root @ [m])) = fst (compress_try e ?f (root @ [m]))"
        using compress_try_cong [OF a1 a2 a3, of e] by blast
      then show "compressed_ok e (fsys sa) (root @ [m]) = compressed_ok e ?f (root @ [m])"
        by (simp add: compressed_ok_def)
    qed
    have A: "\<forall>q. map_of (fsys s1) q =
            (if q \<in> touched root (n # ns) then walked e ?f q else map_of ?f q)"
    proof
      fix q
      show "map_of (fsys s1) q = (if q \<in> touched root (n # ns) then walked e ?f q else map_of ?f q)"
      proof (cases "q \<in> touched root ns")
        case True
        then obtain m where m: "m \<in> set ns" "\<not> endswith m ''.gz''"
          "q = root @ [m] \<or> q = root @ [m @ ''.gz'']" by (auto simp: touched_def)
        then have mn: "m \<noteq> n" using nn by auto
        have "walked e (fsys sa) q = walked e ?f q"
        proof (rule walked_cong)
          show "map_of (fsys sa) q = map_of ?f q"
            using m mn False by (intro agree) (auto simp: not_gz_neq)
          show "map_of (fsys sa) (gz_name q) = map_of ?f (gz_name q)"
            using m mn False by (intro agree) (auto simp: not_gz_neq)
          show "map_of (fsys sa) (butlast q) = map_of ?f (butlast q)"
            using m by (intro agree) auto
          show "map_of (fsys sa) (ungz q) = map_of ?f (ungz q)" if "endswith (last q) ''.gz''"
            using m mn False that by (intro agree) (auto simp: not_gz_neq)
        qed
        moreover have "q \<in> touched root (n # ns)" using True by (auto simp: touched_def)
        ultimately show ?thesis using IH True by simp
      next
        case nt: False
        show ?thesis
        proof (cases "q = ?p \<or> q = root @ [n @ ''.gz'']")
          case True
          then have t: "q \<in> touched root (n # ns)" using False by (auto simp: touched_def)
          have "map_of (fsys sa) q = walked e ?f q"
          proof (cases "q = ?p")
            case True
            with comp show ?thesis by (simp add: walked_def fa)
          next
            case False
            with True have q: "q = root @ [n @ ''.gz'']" by simp
            have "\<not> compressible ?f q" by (simp add: q compressible_def)
            with comp show ?thesis by (simp add: walked_def fa q)
          qed
          with IH nt t show ?thesis by simp
        next
          case False
          then have "q \<notin> touched root (n # ns)" using nt by (auto simp: touched_def)
          with IH nt agree False show ?thesis by simp
        qed
      qed
    qed
    have fl: "filter (\<lambda>m. \<not> endswith m ''.gz'' \<and> compressed_ok e (fsys sa) (root @ [m])) ns =
              filter (\<lambda>m. \<not> endswith m ''.gz'' \<and> compressed_ok e ?f (root @ [m])) ns"
      "filter (\<lambda>m. \<not> endswith m ''.gz'' \<and> \<not> compressed_ok e (fsys sa) (root @ [m])) ns =
       filter (\<lambda>m. \<not> endswith m ''.gz'' \<and> \<not> compressed_ok e ?f (root @ [m])) ns"
      using same by (auto intro!: filter_cong)
    from IH have "cc1 = (if b then cc + 1 else cc) +
        length (filter (\<lambda>m. \<not> endswith m ''.gz'' \<and> compressed_ok e ?f (root @ [m])) ns)"
      and "ec1 = (if b then ec else ec + 1) +
        length (filter (\<lambda>m. \<not> endswith m ''.gz'' \<and> \<not> compressed_ok e ?f (root @ [m])) ns)"
      by (simp_all add: fl)
    with A False bb show ?thesis by simp
  qed
qed

section \<open>The directories still to visit\<close>

definition indep :: "path list \<Rightarrow> bool" where
  "indep stack = (distinct stack \<and> (\<forall>p\<in>set stack. \<forall>q\<in>set stack. prefix p q \<longrightarrow> p = q))"

definition below :: "path list \<Rightarrow> path \<Rightarrow> bool" where
  "below stack q = (\<exists>p\<in>set stack. strict_prefix p q)"

lemma touched_child: "q \<in> touched root names \<Longrightarrow> \<exists>m. q = root @ [m]"
  by (auto simp: touched_def)

lemma strict_prefix_butlast: "strict_prefix p q \<Longrightarrow> prefix p (butlast q)"
  by (metis append_butlast_last_id prefix_order.dual_order.strict_implies_order prefix_snoc strict_prefix_def prefix_bot.extremum_uniqueI)

lemma walked_below_file:
  assumes "wf_fs f" "map_of f p \<noteq> Some Dir" "strict_prefix p q"
  shows "walked e f q = map_of f q" "\<not> compressible f q"
proof -
  have q: "map_of f q = None" by (rule wf_below_file [OF assms])
  have "prefix p (butlast q)" by (rule strict_prefix_butlast [OF assms(3)])
  then have "strict_prefix p (ungz q)"
    by (auto simp: ungz_def prefix_def strict_prefix_def)
  then have u: "map_of f (ungz q) = None" by (rule wf_below_file [OF assms(1,2)])
  show "\<not> compressible f q" using q by (simp add: compressible_def os_path_isfile_def)
  moreover have "\<not> compressible f (ungz q)" using u by (simp add: compressible_def os_path_isfile_def)
  ultimately show "walked e f q = map_of f q" by (simp add: walked_def)
qed

lemma agree_below:
  assumes out: "\<And>q. q \<notin> touched root names \<Longrightarrow> map_of g q = map_of f q"
    and dirs: "\<And>q. (map_of g q = Some Dir) = (map_of f q = Some Dir)"
    and pq: "strict_prefix p q" and np: "\<not> prefix p root"
    and pd: "prefix root p \<Longrightarrow> map_of f p = Some Dir"
  shows "map_of g q = map_of f q" "map_of g (gz_name q) = map_of f (gz_name q)"
    "map_of g (ungz q) = map_of f (ungz q)" "map_of g (butlast q) = map_of f (butlast q)"
proof -
  from pq have qne: "q \<noteq> []" by auto
  have pb: "prefix p (butlast q)" by (rule strict_prefix_butlast [OF pq])
  have nb: "butlast q \<noteq> root" using pb np by auto
  have sib: "\<And>x. butlast q @ [x] \<notin> touched root names"
    using nb by (auto dest!: touched_child)
  have "q = butlast q @ [last q]" using qne by simp
  then show "map_of g q = map_of f q" using out sib by metis
  have "gz_name q = butlast q @ [last q @ ''.gz'']" using qne by (simp add: gz_name_def)
  then show "map_of g (gz_name q) = map_of f (gz_name q)" using out sib by metis
  show "map_of g (ungz q) = map_of f (ungz q)" unfolding ungz_def by (rule out [OF sib])
  show "map_of g (butlast q) = map_of f (butlast q)"
  proof (cases "butlast q \<in> touched root names")
    case False
    then show ?thesis by (rule out)
  next
    case True
    then obtain m where m: "butlast q = root @ [m]" by (auto dest: touched_child)
    with pb np have "p = root @ [m]" by (auto simp: prefix_snoc)
    with pd have "map_of f (root @ [m]) = Some Dir" by simp
    with dirs [of "root @ [m]"] m show ?thesis by simp
  qed
qed

lemma files_loop_wf:
  "wf_fs (fsys (fst acc)) \<Longrightarrow> wf_fs (fsys (fst (files_loop e root names acc)))"
proof (induction names arbitrary: acc)
  case Nil
  then show ?case by simp
next
  case (Cons n ns)
  obtain s cc ec where acc: "acc = (s, cc, ec)" by (cases acc)
  have w: "wf_fs (fsys (snd (compress_file e s (os_path_join root n))))"
    using Cons.prems compress_try_wf by (simp add: acc compress_file_fsys)
  show ?case
    using Cons.IH Cons.prems w
    by (auto simp: acc Let_def split: prod.splits bool.splits)
qed

lemma children_exist: "n \<in> set (children f root) \<Longrightarrow> map_of f (root @ [n]) \<noteq> None"
proof -
  assume "n \<in> set (children f root)"
  then obtain q x where qx: "(q, x) \<in> set f" "q \<noteq> []" "butlast q = root" "last q = n"
    by (auto simp: children_def)
  then have "q = root @ [n]" by (metis append_butlast_last_id)
  with qx(1) show ?thesis by (metis map_of_eq_None_iff fst_conv image_eqI)
qed

lemma children_complete: "map_of f (root @ [n]) \<noteq> None \<Longrightarrow> n \<in> set (children f root)"
proof -
  assume "map_of f (root @ [n]) \<noteq> None"
  then obtain x where "(root @ [n], x) \<in> set f" by (auto dest: map_of_SomeD)
  then show ?thesis by (force simp: children_def)
qed

lemma os_scandir_Some:
  assumes "os_scandir f root = Some (dirs, files)"
  shows "map_of f root = Some Dir" "distinct dirs" "distinct files"
    "\<And>n. n \<in> set dirs \<longleftrightarrow> map_of f (root @ [n]) = Some Dir"
    "\<And>n. n \<in> set files \<longleftrightarrow> os_path_isfile f (root @ [n])"
proof -
  from assms have d: "map_of f root = Some Dir"
    and ds: "dirs = filter (\<lambda>n. os_path_isdir f (root @ [n])) (children f root)"
    and fs: "files = filter (\<lambda>n. \<not> os_path_isdir f (root @ [n])) (children f root)"
    by (auto simp: os_scandir_def os_listdir_def os_path_join_def split: option.splits entry.splits)
  show "map_of f root = Some Dir" by (rule d)
  show "distinct dirs" "distinct files" by (simp_all add: ds fs children_def)
  fix n
  show "n \<in> set dirs \<longleftrightarrow> map_of f (root @ [n]) = Some Dir"
    using children_complete [of f root n] by (auto simp: ds os_path_isdir_def)
  show "n \<in> set files \<longleftrightarrow> os_path_isfile f (root @ [n])"
    using children_complete [of f root n] children_exist [of n f root]
    by (auto simp: fs os_path_isdir_def os_path_isfile_def split: option.splits entry.splits)
qed

lemma os_scandir_None: "os_scandir f root = None \<Longrightarrow> map_of f root \<noteq> Some Dir"
  by (auto simp: os_scandir_def os_listdir_def split: option.splits entry.splits)

lemma indep_tail: "indep (p # stack) \<Longrightarrow> indep stack"
  by (auto simp: indep_def)

lemma indep_push:
  assumes "indep (root # stack)" "distinct dirs"
  shows "indep (map (os_path_join root) dirs @ stack)"
proof -
  have a: "\<And>r. r \<in> set stack \<Longrightarrow> \<not> prefix r root \<and> \<not> prefix root r \<and> r \<noteq> root"
    using assms(1) by (auto simp: indep_def)
  have b: "\<And>r x. r \<in> set stack \<Longrightarrow> r \<noteq> root @ [x]"
    using a by fastforce
  have c: "\<And>r x. r \<in> set stack \<Longrightarrow> \<not> prefix r (root @ [x]) \<and> \<not> prefix (root @ [x]) r"
    using a b by (auto simp: prefix_snoc dest: append_prefixD)
  have inj: "inj_on (os_path_join root) (set dirs)"
    by (auto simp: inj_on_def os_path_join_def)
  have "distinct (map (os_path_join root) dirs @ stack)"
    using assms a b inj by (auto simp: indep_def distinct_map os_path_join_def)
  moreover have "\<forall>p\<in>set (map (os_path_join root) dirs @ stack).
      \<forall>q\<in>set (map (os_path_join root) dirs @ stack). prefix p q \<longrightarrow> p = q"
    using assms(1) c by (auto simp: indep_def os_path_join_def)
  ultimately show ?thesis by (simp add: indep_def)
qed

section \<open>Counting the files to compress\<close>

definition todo :: "filesystem \<Rightarrow> path \<Rightarrow> path set" where
  "todo f p = {q. strict_prefix p q \<and> compressible f q}"

lemma finite_todo: "finite (todo f p)"
proof -
  have "todo f p \<subseteq> fst ` set f"
    by (auto simp: todo_def compressible_def os_path_isfile_def
        split: option.splits dest!: map_of_SomeD intro: rev_image_eqI)
  then show ?thesis by (rule finite_subset) simp
qed

lemma todo_split:
  assumes wf: "wf_fs f" and sc: "os_scandir f root = Some (dirs, files)"
  shows "todo f root =
           (\<lambda>n. root @ [n]) ` {n \<in> set files. \<not> endswith n ''.gz''} \<union>
           (\<Union>d\<in>set dirs. todo f (root @ [d]))"
proof (intro set_eqI iffI)
  fix q assume "q \<in> todo f root"
  then have sp: "strict_prefix root q" and c: "compressible f q" by (auto simp: todo_def)
  from sp obtain zs where zs: "q = root @ zs" "zs \<noteq> []"
    by (auto simp: strict_prefix_def prefix_def)
  then obtain m r where q: "q = root @ m # r"
    by (cases zs) auto
  from c obtain x where x: "map_of f q = Some x"
    by (auto simp: compressible_def os_path_isfile_def split: option.splits)
  show "q \<in> (\<lambda>n. root @ [n]) ` {n \<in> set files. \<not> endswith n ''.gz''} \<union>
           (\<Union>d\<in>set dirs. todo f (root @ [d]))"
  proof (cases "r = []")
    case True
    with c q have "os_path_isfile f (root @ [m])" "\<not> endswith m ''.gz''"
      by (auto simp: compressible_def)
    with os_scandir_Some(5) [OF sc, of m] True q show ?thesis by auto
  next
    case False
    have "map_of f ((root @ [m]) @ r) = Some x" using x q by simp
    from wf_ancestor [OF wf this] False have "map_of f (root @ [m]) = Some Dir" by simp
    then have "m \<in> set dirs" using os_scandir_Some(4) [OF sc, of m] by simp
    moreover have "strict_prefix (root @ [m]) q" using False q by (auto simp: strict_prefix_def prefix_def)
    ultimately show ?thesis using c by (auto simp: todo_def)
  qed
next
  fix q assume "q \<in> (\<lambda>n. root @ [n]) ` {n \<in> set files. \<not> endswith n ''.gz''} \<union>
           (\<Union>d\<in>set dirs. todo f (root @ [d]))"
  then show "q \<in> todo f root"
  proof
    assume "q \<in> (\<lambda>n. root @ [n]) ` {n \<in> set files. \<not> endswith n ''.gz''}"
    then obtain n where n: "q = root @ [n]" "n \<in> set files" "\<not> endswith n ''.gz''" by auto
    then have "os_path_isfile f (root @ [n])" using os_scandir_Some(5) [OF sc, of n] by simp
    with n show ?thesis by (auto simp: todo_def compressible_def strict_prefix_def)
  next
    assume "q \<in> (\<Union>d\<in>set dirs. todo f (root @ [d]))"
    then obtain d where "strict_prefix (root @ [d]) q" "compressible f q" by (auto simp: todo_def)
    then show ?thesis by (auto simp: todo_def strict_prefix_def prefix_def)
  qed
qed

lemma todo_card:
  assumes wf: "wf_fs f" and sc: "os_scandir f root = Some (dirs, files)"
  shows "card {q \<in> todo f root. P q} =
           length (filter (\<lambda>n. \<not> endswith n ''.gz'' \<and> P (root @ [n])) files) +
           (\<Sum>d\<leftarrow>dirs. card {q \<in> todo f (root @ [d]). P q})"
proof -
  let ?A = "(\<lambda>n. root @ [n]) ` set (filter (\<lambda>n. \<not> endswith n ''.gz'' \<and> P (root @ [n])) files)"
  let ?S = "\<lambda>d. {q \<in> todo f (root @ [d]). P q}"
  let ?B = "\<Union>d\<in>set dirs. ?S d"
  have eq: "{q \<in> todo f root. P q} = ?A \<union> ?B"
    unfolding todo_split [OF wf sc] by auto
  have fin: "\<And>d. finite (?S d)" using finite_todo by simp
  have disj: "?A \<inter> ?B = {}"
    by (auto simp: todo_def strict_prefix_def prefix_def)
  have dd: "distinct dirs" and df: "distinct files" using os_scandir_Some(2,3) [OF sc] by auto
  have cA: "card ?A = length (filter (\<lambda>n. \<not> endswith n ''.gz'' \<and> P (root @ [n])) files)"
  proof -
    have "inj_on (\<lambda>n. root @ [n]) (set (filter (\<lambda>n. \<not> endswith n ''.gz'' \<and> P (root @ [n])) files))"
      by (auto simp: inj_on_def)
    then have "card ?A = card (set (filter (\<lambda>n. \<not> endswith n ''.gz'' \<and> P (root @ [n])) files))"
      by (rule card_image)
    also have "\<dots> = length (filter (\<lambda>n. \<not> endswith n ''.gz'' \<and> P (root @ [n])) files)"
      using df by (intro distinct_card distinct_filter)
    finally show ?thesis .
  qed
  have cB: "card ?B = (\<Sum>d\<leftarrow>dirs. card (?S d))"
  proof -
    have "\<And>d d'. d \<noteq> d' \<Longrightarrow> ?S d \<inter> ?S d' = {}"
      by (auto simp: todo_def strict_prefix_def prefix_def)
    then have "card ?B = (\<Sum>d\<in>set dirs. card (?S d))"
      by (intro card_UN_disjoint) (use fin in auto)
    also have "\<dots> = (\<Sum>d\<leftarrow>dirs. card (?S d))"
      using dd by (simp add: sum_list_distinct_conv_sum_set)
    finally show ?thesis .
  qed
  have "finite ?A" by simp
  moreover have "finite ?B" using fin by simp
  ultimately have "card (?A \<union> ?B) = card ?A + card ?B"
    using disj by (rule card_Un_disjoint)
  with eq cA cB show ?thesis by simp
qed

lemma todo_not_dir:
  assumes "wf_fs f" "map_of f p \<noteq> Some Dir"
  shows "todo f p = {}"
  using walked_below_file(2) [OF assms] by (auto simp: todo_def)

section \<open>The walk\<close>

lemma below_Cons: "below (p # stack) q \<longleftrightarrow> strict_prefix p q \<or> below stack q"
  by (auto simp: below_def)

lemma below_push:
  "below (map (os_path_join root) dirs @ stack) q \<longleftrightarrow>
     (\<exists>d\<in>set dirs. strict_prefix (root @ [d]) q) \<or> below stack q"
  by (auto simp: below_def os_path_join_def)

lemma walk_loop_char:
  assumes "wf_fs (fsys s)" "indep stack" "walk_loop e stack (s, cc, ec) = (s', cc', ec')"
  shows "(\<forall>q. map_of (fsys s') q = (if below stack q then walked e (fsys s) q else map_of (fsys s) q)) \<and>
         cc' = cc + (\<Sum>p\<leftarrow>stack. card {q \<in> todo (fsys s) p. compressed_ok e (fsys s) q}) \<and>
         ec' = ec + (\<Sum>p\<leftarrow>stack. card {q \<in> todo (fsys s) p. \<not> compressed_ok e (fsys s) q})"
  using assms
proof (induction e stack "(s, cc, ec)" arbitrary: s cc ec rule: walk_loop.induct)
  case (1 e)
  then show ?case by (simp add: below_def)
next
  case (2 e root stack s cc ec)
  let ?f = "fsys s"
  note wf = "2.prems"(1) and ind = "2.prems"(2)
  show ?case
  proof (cases "os_scandir ?f root")
    case None
    then have nd: "map_of ?f root \<noteq> Some Dir" by (rule os_scandir_None)
    have r: "walk_loop e stack (s, cc, ec) = (s', cc', ec')" using "2.prems"(3) None by simp
    note IH = "2.hyps"(1) [OF None wf indep_tail [OF ind] r]
    have w: "\<And>q. strict_prefix root q \<Longrightarrow> walked e ?f q = map_of ?f q"
      using walked_below_file(1) [OF wf nd] .
    have t: "todo ?f root = {}" by (rule todo_not_dir [OF wf nd])
    have "\<forall>q. map_of (fsys s') q = (if below (root # stack) q then walked e ?f q else map_of ?f q)"
      using IH w by (auto simp: below_Cons)
    with IH t show ?thesis by simp
  next
    case (Some x)
    obtain dirs files where x: "x = (dirs, files)" by (cases x)
    have sc: "os_scandir ?f root = Some (dirs, files)" using Some x by simp
    note scan = os_scandir_Some [OF sc]
    obtain s1 cc1 ec1 where fl: "files_loop e root files (s, cc, ec) = (s1, cc1, ec1)"
      by (cases "files_loop e root files (s, cc, ec)")
    let ?g = "fsys s1"
    have r: "walk_loop e (map (os_path_join root) dirs @ stack) (s1, cc1, ec1) = (s', cc', ec')"
      using "2.prems"(3) sc fl by simp
    have wf1: "wf_fs ?g" using files_loop_wf [of "(s, cc, ec)" e root files] wf fl by simp
    have ind1: "indep (map (os_path_join root) dirs @ stack)"
      by (rule indep_push [OF ind scan(2)])
    note IH = "2.hyps"(2) [OF Some x [symmetric] fl wf1 ind1 r]
    have fc: "(\<forall>q. map_of ?g q = (if q \<in> touched root files then walked e ?f q else map_of ?f q)) \<and>
         cc1 = cc + length (filter (\<lambda>n. \<not> endswith n ''.gz'' \<and> compressed_ok e ?f (root @ [n])) files) \<and>
         ec1 = ec + length (filter (\<lambda>n. \<not> endswith n ''.gz'' \<and> \<not> compressed_ok e ?f (root @ [n])) files)"
      by (rule files_loop_char [OF scan(3) _ fl]) (simp add: scan(5))
    have out: "\<And>q. q \<notin> touched root files \<Longrightarrow> map_of ?g q = map_of ?f q"
      using fc by simp
    have dirs: "\<And>q. (map_of ?g q = Some Dir) = (map_of ?f q = Some Dir)"
      using files_loop_dir [of e root files "(s, cc, ec)"] fl by simp
    have side: "\<And>p. p \<in> set (map (os_path_join root) dirs @ stack) \<Longrightarrow>
        \<not> prefix p root \<and> (prefix root p \<longrightarrow> map_of ?f p = Some Dir)"
    proof -
      fix p assume "p \<in> set (map (os_path_join root) dirs @ stack)"
      then consider d where "d \<in> set dirs" "p = root @ [d]" | "p \<in> set stack"
        by (auto simp: os_path_join_def)
      then show "\<not> prefix p root \<and> (prefix root p \<longrightarrow> map_of ?f p = Some Dir)"
      proof cases
        case 1
        then show ?thesis using scan(4) by auto
      next
        case 2
        then show ?thesis using ind by (auto simp: indep_def)
      qed
    qed
    have ag: "\<And>p q. p \<in> set (map (os_path_join root) dirs @ stack) \<Longrightarrow> strict_prefix p q \<Longrightarrow>
        walked e ?g q = walked e ?f q \<and> compressible ?g q = compressible ?f q \<and>
        compressed_ok e ?g q = compressed_ok e ?f q"
    proof -
      fix p q assume p: "p \<in> set (map (os_path_join root) dirs @ stack)" and pq: "strict_prefix p q"
      from side [OF p] have np: "\<not> prefix p root" and pd: "prefix root p \<Longrightarrow> map_of ?f p = Some Dir"
        by auto
      note a = agree_below [of root files ?g ?f, OF out dirs pq np pd]
      from pq have qne: "q \<noteq> []" by auto
      have "walked e ?g q = walked e ?f q"
        by (rule walked_cong [OF a(1) a(2) a(4) a(3)])
      moreover have "compressible ?g q = compressible ?f q"
        by (rule compressible_cong [OF a(1)])
      moreover have "fst (compress_try e ?g q) = fst (compress_try e ?f q)"
        using compress_try_cong [OF a(1) a(2), of e] a(4) qne by (simp add: butlast_gz_name)
      ultimately show "walked e ?g q = walked e ?f q \<and> compressible ?g q = compressible ?f q \<and>
        compressed_ok e ?g q = compressed_ok e ?f q"
        by (simp add: compressed_ok_def)
    qed
    have A: "\<forall>q. map_of (fsys s') q = (if below (root # stack) q then walked e ?f q else map_of ?f q)"
    proof
      fix q
      show "map_of (fsys s') q = (if below (root # stack) q then walked e ?f q else map_of ?f q)"
      proof (cases "below (map (os_path_join root) dirs @ stack) q")
        case True
        then obtain p where p: "p \<in> set (map (os_path_join root) dirs @ stack)" "strict_prefix p q"
          by (auto simp: below_def)
        have b: "below (root # stack) q"
          using True by (auto simp: below_push below_Cons strict_prefix_def prefix_def)
        from IH True ag [OF p] b show ?thesis by simp
      next
        case nb: False
        then have e1: "map_of (fsys s') q = map_of ?g q" using IH by simp
        show ?thesis
        proof (cases "q \<in> touched root files")
          case True
          then have "strict_prefix root q" by (auto dest!: touched_child simp: strict_prefix_def)
          with True e1 fc show ?thesis by (simp add: below_Cons)
        next
          case nt: False
          have e2: "map_of (fsys s') q = map_of ?f q" using e1 out [OF nt] by simp
          show ?thesis
          proof (cases "strict_prefix root q")
            case False
            with nb have "\<not> below (root # stack) q" by (auto simp: below_push below_Cons)
            with e2 show ?thesis by simp
          next
            case True
            then obtain zs where zs: "q = root @ zs" "zs \<noteq> []"
              by (auto simp: strict_prefix_def prefix_def)
            then obtain m r where q: "q = root @ m # r" by (cases zs) auto
            have "walked e ?f q = map_of ?f q"
            proof (cases "r = []")
              case True
              then have qm: "q = root @ [m]" using q by simp
              have nc: "\<not> compressible ?f q"
              proof
                assume c: "compressible ?f q"
                then have "m \<in> set files" "\<not> endswith m ''.gz''"
                  using scan(5) [of m] by (auto simp: qm compressible_def)
                then have "q \<in> touched root files" by (auto simp: touched_def qm)
                with nt show False by simp
              qed
              have nu: "\<not> (endswith (last q) ''.gz'' \<and> compressible ?f (ungz q))"
              proof
                assume c: "endswith (last q) ''.gz'' \<and> compressible ?f (ungz q)"
                let ?n = "take (length m - 3) m"
                have m: "m = ?n @ ''.gz''" using c endswith_split [of m] by (simp add: qm)
                have u: "ungz q = root @ [?n]" by (simp add: qm ungz_def)
                from c have "?n \<in> set files" "\<not> endswith ?n ''.gz''"
                  using scan(5) [of ?n] by (auto simp: u compressible_def)
                then have "root @ [?n @ ''.gz''] \<in> touched root files" by (auto simp: touched_def)
                with m qm nt show False by simp
              qed
              from nc nu show ?thesis by (auto simp: walked_def)
            next
              case False
              have sp: "strict_prefix (root @ [m]) q" using False q by (auto simp: strict_prefix_def prefix_def)
              have "map_of ?f (root @ [m]) \<noteq> Some Dir"
              proof
                assume "map_of ?f (root @ [m]) = Some Dir"
                then have "m \<in> set dirs" using scan(4) by simp
                with sp have "below (map (os_path_join root) dirs @ stack) q" by (auto simp: below_push)
                with nb show False by simp
              qed
              from walked_below_file(1) [OF wf this sp] show ?thesis .
            qed
            with e2 show ?thesis by simp
          qed
        qed
      qed
    qed
    have sets: "\<And>p P. p \<in> set (map (os_path_join root) dirs @ stack) \<Longrightarrow>
        {q \<in> todo ?g p. compressed_ok e ?g q} = {q \<in> todo ?f p. compressed_ok e ?f q} \<and>
        {q \<in> todo ?g p. \<not> compressed_ok e ?g q} = {q \<in> todo ?f p. \<not> compressed_ok e ?f q}"
      using ag by (auto simp: todo_def)
    have sum1: "(\<Sum>p\<leftarrow>map (os_path_join root) dirs @ stack. card {q \<in> todo ?g p. compressed_ok e ?g q}) =
                (\<Sum>p\<leftarrow>map (os_path_join root) dirs @ stack. card {q \<in> todo ?f p. compressed_ok e ?f q})"
      by (rule arg_cong [where f = sum_list], rule map_cong) (use sets in auto)
    have sum2: "(\<Sum>p\<leftarrow>map (os_path_join root) dirs @ stack. card {q \<in> todo ?g p. \<not> compressed_ok e ?g q}) =
                (\<Sum>p\<leftarrow>map (os_path_join root) dirs @ stack. card {q \<in> todo ?f p. \<not> compressed_ok e ?f q})"
      by (rule arg_cong [where f = sum_list], rule map_cong) (use sets in auto)
    have c1: "card {q \<in> todo ?f root. compressed_ok e ?f q} =
           length (filter (\<lambda>n. \<not> endswith n ''.gz'' \<and> compressed_ok e ?f (root @ [n])) files) +
           (\<Sum>d\<leftarrow>dirs. card {q \<in> todo ?f (root @ [d]). compressed_ok e ?f q})"
      by (rule todo_card [OF wf sc])
    have c2: "card {q \<in> todo ?f root. \<not> compressed_ok e ?f q} =
           length (filter (\<lambda>n. \<not> endswith n ''.gz'' \<and> \<not> compressed_ok e ?f (root @ [n])) files) +
           (\<Sum>d\<leftarrow>dirs. card {q \<in> todo ?f (root @ [d]). \<not> compressed_ok e ?f q})"
      by (rule todo_card [OF wf sc])
    from IH have "cc' = cc1 + (\<Sum>p\<leftarrow>map (os_path_join root) dirs @ stack. card {q \<in> todo ?f p. compressed_ok e ?f q})"
      and "ec' = ec1 + (\<Sum>p\<leftarrow>map (os_path_join root) dirs @ stack. card {q \<in> todo ?f p. \<not> compressed_ok e ?f q})"
      by (simp_all only: sum1 sum2)
    then have "cc' = cc + (\<Sum>p\<leftarrow>root # stack. card {q \<in> todo ?f p. compressed_ok e ?f q})"
      and "ec' = ec + (\<Sum>p\<leftarrow>root # stack. card {q \<in> todo ?f p. \<not> compressed_ok e ?f q})"
      using fc c1 c2 by (simp_all add: os_path_join_def comp_def)
    with A show ?thesis by simp
  qed
qed

section \<open>Making directories\<close>

lemma wf_update_dir:
  assumes "wf_fs f" "map_of f name = None" "name \<noteq> []" "map_of f (butlast name) = Some Dir"
  shows "wf_fs (AList.update name Dir f)"
  using assms
  by (auto simp: wf_fs_def update_conv' intro!: distinct_update)

definition grown :: "filesystem \<Rightarrow> filesystem \<Rightarrow> path \<Rightarrow> bool" where
  "grown f g name =
     (\<forall>q. map_of g q = map_of f q \<or> (map_of f q = None \<and> map_of g q = Some Dir \<and> prefix q name))"

lemma grown_refl: "grown f f name"
  by (simp add: grown_def)

lemma grown_trans: "grown f g (butlast name) \<Longrightarrow> grown g h name \<Longrightarrow> grown f h name"
  unfolding grown_def
  by (metis prefix_order.trans prefixeq_butlast)

lemma mkdir_exist_ok_char:
  assumes "mkdir_exist_ok f name = Inr g" "wf_fs f"
  shows "wf_fs g \<and> map_of g name = Some Dir \<and> grown f g name"
proof (cases "os_mkdir f name")
  case (Inl err)
  with assms(1) have "g = f" "map_of f name = Some Dir"
    by (auto simp: mkdir_exist_ok_def os_path_isdir_def split: if_splits)
  with assms(2) show ?thesis by (simp add: grown_refl)
next
  case (Inr h)
  with assms(1) have gh: "g = h" by (simp add: mkdir_exist_ok_def)
  from Inr have a: "name \<noteq> []" "map_of f name = None" "map_of f (butlast name) = Some Dir"
    and h: "h = AList.update name Dir f"
    by (auto simp: os_mkdir_def os_path_exists_def split: if_splits option.splits entry.splits)
  have "wf_fs h" unfolding h by (rule wf_update_dir [OF assms(2) a(2) a(1) a(3)])
  moreover have "grown f h name" using a by (auto simp: grown_def h update_conv')
  ultimately show ?thesis by (simp add: gh h update_conv')
qed

lemma os_makedirs_char:
  "wf_fs f \<Longrightarrow> os_makedirs f name = Inr g \<Longrightarrow>
     wf_fs g \<and> map_of g name = Some Dir \<and> grown f g name"
proof (induction f name arbitrary: g rule: os_makedirs.induct)
  case (1 s name)
  show ?case
  proof (cases "name \<noteq> [] \<and> \<not> os_path_exists s (butlast name)")
    case False
    with "1.prems"(2) have "mkdir_exist_ok s name = Inr g"
      by (simp add: os_makedirs.simps [of s name])
    from mkdir_exist_ok_char [OF this "1.prems"(1)] show ?thesis .
  next
    case True
    show ?thesis
    proof (cases "os_makedirs s (butlast name)")
      case (Inr s1)
      with True "1.prems"(2) have m: "mkdir_exist_ok s1 name = Inr g"
        by (simp add: os_makedirs.simps [of s name])
      from "1.IH" [OF True "1.prems"(1) Inr] have w: "wf_fs s1" and gr: "grown s s1 (butlast name)"
        by auto
      from mkdir_exist_ok_char [OF m w] gr show ?thesis
        by (auto intro: grown_trans)
    next
      case (Inl err)
      with True "1.prems"(2) have "mkdir_exist_ok s name = Inr g"
        by (simp add: os_makedirs.simps [of s name] split: oserror.splits)
      from mkdir_exist_ok_char [OF this "1.prems"(1)] show ?thesis .
    qed
  qed
qed

lemma os_makedirs_isdir:
  assumes "wf_fs f" "map_of f name = Some Dir"
  shows "os_makedirs f name = Inr f"
proof -
  have m: "mkdir_exist_ok f name = Inr f"
    using assms(2) by (simp add: mkdir_exist_ok_def os_mkdir_def os_path_exists_def os_path_isdir_def)
  have "name \<noteq> [] \<Longrightarrow> os_path_exists f (butlast name)"
    using wf_parent [OF assms] by (simp add: os_path_exists_def)
  then show ?thesis by (auto simp: os_makedirs.simps [of f name] m)
qed

lemma os_makedirs_succeeds:
  "wf_fs f \<Longrightarrow> (\<forall>q. prefix q name \<longrightarrow> map_of f q = None \<or> map_of f q = Some Dir) \<Longrightarrow>
     \<exists>g. os_makedirs f name = Inr g"
proof (induction f name rule: os_makedirs.induct)
  case (1 s name)
  have ok: "\<And>h. wf_fs h \<Longrightarrow> map_of h name = None \<or> map_of h name = Some Dir \<Longrightarrow>
      (name \<noteq> [] \<Longrightarrow> map_of h (butlast name) = Some Dir) \<Longrightarrow> \<exists>g. mkdir_exist_ok h name = Inr g"
  proof -
    fix h assume h: "wf_fs h" "map_of h name = None \<or> map_of h name = Some Dir"
      "name \<noteq> [] \<Longrightarrow> map_of h (butlast name) = Some Dir"
    show "\<exists>g. mkdir_exist_ok h name = Inr g"
    proof (cases "map_of h name")
      case None
      have "name \<noteq> []" using None h(1) by (auto simp: wf_fs_def)
      with None h(3) show ?thesis
        by (simp add: mkdir_exist_ok_def os_mkdir_def os_path_exists_def)
    next
      case (Some x)
      with h(2) show ?thesis
        by (simp add: mkdir_exist_ok_def os_mkdir_def os_path_exists_def os_path_isdir_def)
    qed
  qed
  have here: "map_of s name = None \<or> map_of s name = Some Dir" using "1.prems"(2) by simp
  show ?case
  proof (cases "name \<noteq> [] \<and> \<not> os_path_exists s (butlast name)")
    case False
    have "name \<noteq> [] \<Longrightarrow> map_of s (butlast name) = Some Dir"
      using False "1.prems"(2) [rule_format, of "butlast name"]
      by (auto simp: os_path_exists_def prefixeq_butlast)
    from ok [OF "1.prems"(1) here this] obtain g where "mkdir_exist_ok s name = Inr g" by blast
    with False show ?thesis by (auto simp: os_makedirs.simps [of s name])
  next
    case True
    have "\<forall>q. prefix q (butlast name) \<longrightarrow> map_of s q = None \<or> map_of s q = Some Dir"
      using "1.prems"(2) by (meson prefix_order.trans prefixeq_butlast)
    from "1.IH" [OF True "1.prems"(1) this] obtain s1 where s1: "os_makedirs s (butlast name) = Inr s1"
      by blast
    from os_makedirs_char [OF "1.prems"(1) s1] have w: "wf_fs s1"
      and d: "map_of s1 (butlast name) = Some Dir" and gr: "grown s s1 (butlast name)" by auto
    have "map_of s1 name = None \<or> map_of s1 name = Some Dir"
      using gr [unfolded grown_def, rule_format, of name] here by auto
    from ok [OF w this] d obtain g where "mkdir_exist_ok s1 name = Inr g" by blast
    with True s1 show ?thesis by (simp add: os_makedirs.simps [of s name])
  qed
qed

section \<open>Emptying the output directory\<close>

lemma wf_remove:
  assumes "wf_fs f" "p \<noteq> []" "distinct (map fst g)"
    and "\<And>q. map_of g q = (if prefix p q then None else map_of f q)"
  shows "wf_fs g"
  unfolding wf_fs_def
proof (intro conjI allI impI)
  show "distinct (map fst g)" by (rule assms(3))
  show "map_of g [] = Some Dir" using assms(1,2,4) by (simp add: wf_fs_def)
  fix q x assume a: "q \<noteq> [] \<and> map_of g q = Some x"
  then have np: "\<not> prefix p q" and fq: "map_of f q = Some x"
    using assms(4) [of q] by (auto split: if_splits)
  have "\<not> prefix p (butlast q)"
    using np by (meson prefix_order.trans prefixeq_butlast)
  then show "map_of g (butlast q) = Some Dir"
    using assms(4) [of "butlast q"] wf_parent [OF assms(1) fq] a by simp
qed

lemma clean_loop_char:
  assumes "wf_fs f"
  shows "\<exists>g. clean_loop out items f = (None, g) \<and> wf_fs g \<and>
           (\<forall>q. map_of g q = (if \<exists>n\<in>set items. prefix (out @ [n]) q then None else map_of f q))"
  using assms
proof (induction items arbitrary: f)
  case Nil
  then show ?case by simp
next
  case (Cons n ns)
  let ?p = "out @ [n]"
  have below: "\<And>q. map_of f ?p \<noteq> Some Dir \<Longrightarrow> strict_prefix ?p q \<Longrightarrow> map_of f q = None"
    using wf_below_file [OF Cons.prems] by blast
  have step: "\<exists>f1. clean_loop out (n # ns) f = clean_loop out ns f1 \<and> wf_fs f1 \<and>
      (\<forall>q. map_of f1 q = (if prefix ?p q then None else map_of f q))"
  proof (cases "map_of f ?p")
    case None
    have "\<forall>q. map_of f q = (if prefix ?p q then None else map_of f q)"
      using below None by (auto simp: strict_prefix_def)
    with None Cons.prems show ?thesis
      by (auto simp: os_path_isfile_def os_path_isdir_def os_path_join_def)
  next
    case (Some x)
    show ?thesis
    proof (cases x)
      case (File c)
      let ?f1 = "AList.delete ?p f"
      have m: "\<forall>q. map_of ?f1 q = (if prefix ?p q then None else map_of f q)"
        using below Some File by (auto simp: delete_conv' strict_prefix_def)
      have "distinct (map fst ?f1)" using Cons.prems by (auto simp: wf_fs_def intro: distinct_delete)
      then have "wf_fs ?f1" using m by (intro wf_remove [OF Cons.prems, of ?p]) auto
      with m Some File show ?thesis
        by (auto simp: os_path_isfile_def os_remove_def os_path_join_def)
    next
      case Dir
      let ?f1 = "filter (\<lambda>(q, e). \<not> prefix ?p q) f"
      have m: "\<forall>q. map_of ?f1 q = (if prefix ?p q then None else map_of f q)"
        by (simp add: map_of_filter_key)
      have "distinct (map fst ?f1)" using Cons.prems by (auto simp: wf_fs_def distinct_map_filter)
      then have "wf_fs ?f1" using m by (intro wf_remove [OF Cons.prems, of ?p]) auto
      with m Some Dir show ?thesis
        by (auto simp: os_path_isfile_def os_path_isdir_def shutil_rmtree_def os_path_join_def)
    qed
  qed
  then obtain f1 where f1: "clean_loop out (n # ns) f = clean_loop out ns f1" "wf_fs f1"
    "\<forall>q. map_of f1 q = (if prefix ?p q then None else map_of f q)" by blast
  from Cons.IH [OF f1(2)] obtain g where g: "clean_loop out ns f1 = (None, g)" "wf_fs g"
    "\<forall>q. map_of g q = (if \<exists>n\<in>set ns. prefix (out @ [n]) q then None else map_of f1 q)" by blast
  have "\<forall>q. map_of g q = (if \<exists>m\<in>set (n # ns). prefix (out @ [m]) q then None else map_of f q)"
    using g(3) f1(3) by auto
  with g f1(1) show ?case by auto
qed

lemma clean_all:
  assumes "wf_fs f" "map_of f out = Some Dir"
  shows "\<exists>g. clean_loop out (children f out) f = (None, g) \<and> wf_fs g \<and>
           (\<forall>q. map_of g q = (if strict_prefix out q then None else map_of f q))"
proof -
  from clean_loop_char [OF assms(1), of out "children f out"] obtain g where
    g: "clean_loop out (children f out) f = (None, g)" "wf_fs g"
    "\<forall>q. map_of g q = (if \<exists>n\<in>set (children f out). prefix (out @ [n]) q then None else map_of f q)"
    by blast
  have "\<forall>q. map_of g q = (if strict_prefix out q then None else map_of f q)"
  proof
    fix q
    show "map_of g q = (if strict_prefix out q then None else map_of f q)"
    proof (cases "\<exists>n\<in>set (children f out). prefix (out @ [n]) q")
      case True
      then have "strict_prefix out q" by (auto simp: strict_prefix_def prefix_def)
      with True g(3) show ?thesis by simp
    next
      case False
      show ?thesis
      proof (cases "strict_prefix out q")
        case sp: True
        then obtain zs where zs: "q = out @ zs" "zs \<noteq> []"
          by (auto simp: strict_prefix_def prefix_def)
        then obtain m r where q: "q = (out @ [m]) @ r" by (cases zs) auto
        have "map_of f q = None"
        proof (rule ccontr)
          assume "map_of f q \<noteq> None"
          then obtain x where x: "map_of f ((out @ [m]) @ r) = Some x" using q by auto
          from wf_ancestor [OF assms(1) x] have "map_of f (out @ [m]) \<noteq> None" by auto
          then have "m \<in> set (children f out)" by (rule children_complete)
          with False q show False by auto
        qed
        with False sp g(3) show ?thesis by simp
      next
        case False
        with \<open>\<not> (\<exists>n\<in>set (children f out). prefix (out @ [n]) q)\<close> g(3) show ?thesis by simp
      qed
    qed
  qed
  with g show ?thesis by blast
qed

section \<open>Copying the build directory\<close>

lemma tree_dirs_iff: "d \<in> set (tree_dirs f src) \<longleftrightarrow> (d, Dir) \<in> set f \<and> strict_prefix src d"
  by (force simp: tree_dirs_def)

lemma tree_files_iff:
  "(q, c) \<in> set (tree_files f src) \<longleftrightarrow> (q, File c) \<in> set f \<and> strict_prefix src q"
  by (auto simp: tree_files_def split: entry.splits if_splits)

lemma tree_files_keys: "fst ` set (tree_files f src) \<subseteq> fst ` set f"
  by (force simp: tree_files_iff)

lemma tree_files_distinct: "distinct (map fst f) \<Longrightarrow> distinct (map fst (tree_files f src))"
proof (induction f)
  case Nil
  then show ?case by (simp add: tree_files_def)
next
  case (Cons a f)
  obtain q x where a: "a = (q, x)" by (cases a)
  have t: "tree_files (a # f) src =
      (case x of File c \<Rightarrow> if strict_prefix src q then [(q, c)] else [] | Dir \<Rightarrow> []) @ tree_files f src"
    by (simp add: tree_files_def a)
  have "q \<notin> fst ` set (tree_files f src)"
    using Cons.prems tree_files_keys [of f src] by (auto simp: a)
  with Cons show ?case by (auto simp: t split: entry.splits)
qed

lemma copy_files:
  assumes "distinct (map fst g)"
    and "\<forall>q0 c. (q0, c) \<in> set fl \<longrightarrow> relocate src dst q0 \<noteq> [] \<and>
           map_of g (relocate src dst q0) \<noteq> Some Dir \<and>
           map_of g (butlast (relocate src dst q0)) = Some Dir"
  shows "\<exists>g'. fold (copy2 src dst) fl (g, errs) = (g', errs) \<and> distinct (map fst g') \<and>
           (\<forall>q. map_of g' q =
              (case map_of (map (\<lambda>(q0, c). (relocate src dst q0, File c)) (rev fl)) q of
                 Some x \<Rightarrow> Some x
               | None \<Rightarrow> map_of g q))"
  using assms
proof (induction fl arbitrary: g)
  case Nil
  then show ?case by simp
next
  case (Cons a fl)
  obtain q0 c where a: "a = (q0, c)" by (cases a)
  let ?t = "relocate src dst q0"
  let ?g1 = "AList.update ?t (File c) g"
  from Cons.prems(2) have t: "?t \<noteq> []" "map_of g ?t \<noteq> Some Dir" "map_of g (butlast ?t) = Some Dir"
    by (auto simp: a)
  have step: "copy2 src dst a (g, errs) = (?g1, errs)"
    using t by (simp add: copy2_def a Let_def os_path_isdir_def write_file_def)
  have d1: "distinct (map fst ?g1)" using Cons.prems(1) by (rule distinct_update)
  have h1: "\<forall>q1 c1. (q1, c1) \<in> set fl \<longrightarrow> relocate src dst q1 \<noteq> [] \<and>
           map_of ?g1 (relocate src dst q1) \<noteq> Some Dir \<and>
           map_of ?g1 (butlast (relocate src dst q1)) = Some Dir"
  proof (intro allI impI)
    fix q1 c1 assume "(q1, c1) \<in> set fl"
    with Cons.prems(2) have b: "relocate src dst q1 \<noteq> []" "map_of g (relocate src dst q1) \<noteq> Some Dir"
      "map_of g (butlast (relocate src dst q1)) = Some Dir" by auto
    from b(3) t(2) have "butlast (relocate src dst q1) \<noteq> ?t" by auto
    with b show "relocate src dst q1 \<noteq> [] \<and>
           map_of ?g1 (relocate src dst q1) \<noteq> Some Dir \<and>
           map_of ?g1 (butlast (relocate src dst q1)) = Some Dir"
      by (simp add: update_conv')
  qed
  from Cons.IH [OF d1 h1] obtain g' where g': "fold (copy2 src dst) fl (?g1, errs) = (g', errs)"
    "distinct (map fst g')"
    "\<forall>q. map_of g' q =
              (case map_of (map (\<lambda>(q0, c). (relocate src dst q0, File c)) (rev fl)) q of
                 Some x \<Rightarrow> Some x
               | None \<Rightarrow> map_of ?g1 q)" by blast
  have "\<forall>q. map_of g' q =
              (case map_of (map (\<lambda>(q0, c). (relocate src dst q0, File c)) (rev (a # fl))) q of
                 Some x \<Rightarrow> Some x
               | None \<Rightarrow> map_of g q)"
    using g'(3) by (auto simp: a map_add_def update_conv' split: option.splits)
  with g'(1,2) step show ?case by auto
qed

definition copy_ready :: "filesystem \<Rightarrow> path \<Rightarrow> path \<Rightarrow> bool" where
  "copy_ready f src dst =
     (wf_fs f \<and> map_of f src = Some Dir \<and> map_of f dst = Some Dir \<and>
      (\<forall>q. strict_prefix dst q \<longrightarrow> map_of f q = None))"

definition dirs_made :: "filesystem \<Rightarrow> path \<Rightarrow> path \<Rightarrow> filesystem \<Rightarrow> bool" where
  "dirs_made f src dst g =
     (wf_fs g \<and>
      (\<forall>q. map_of g q = map_of f q \<or>
           (map_of f q = None \<and> map_of g q = Some Dir \<and> strict_prefix dst q \<and>
            map_of f (src @ drop (length dst) q) = Some Dir)))"

lemma relocate_below: "relocate src dst (src @ r) = dst @ r"
  by (simp add: relocate_def)

lemma wf_prefix_dir:
  assumes "wf_fs f" "map_of f p = Some Dir" "prefix q p"
  shows "map_of f q = Some Dir"
proof -
  from assms(3) obtain r where "p = q @ r" by (auto simp: prefix_def)
  with wf_ancestor [OF assms(1), of q r Dir] assms(2) show ?thesis by auto
qed

lemma copy_dirs:
  assumes rdy: "copy_ready f src dst" and inv: "dirs_made f src dst g"
    and ds: "\<forall>d\<in>set ds. strict_prefix src d \<and> map_of f d = Some Dir"
  shows "\<exists>g'. fold (copy_dir src dst) ds (g, []) = (g', []) \<and> dirs_made f src dst g' \<and>
           (\<forall>d\<in>set ds. map_of g' (relocate src dst d) = Some Dir) \<and>
           (\<forall>q. map_of g q = Some Dir \<longrightarrow> map_of g' q = Some Dir)"
  using inv ds
proof (induction ds arbitrary: g)
  case Nil
  then show ?case by simp
next
  case (Cons d ds)
  from rdy have wf: "wf_fs f" and dstd: "map_of f dst = Some Dir"
    and empty: "\<And>q. strict_prefix dst q \<Longrightarrow> map_of f q = None"
    by (auto simp: copy_ready_def)
  from Cons.prems(1) have wg: "wf_fs g"
    and ch: "\<And>q. map_of g q = map_of f q \<or>
           (map_of f q = None \<and> map_of g q = Some Dir \<and> strict_prefix dst q \<and>
            map_of f (src @ drop (length dst) q) = Some Dir)"
    by (auto simp: dirs_made_def)
  from Cons.prems(2) obtain rel where rel: "d = src @ rel" "rel \<noteq> []" and dd: "map_of f d = Some Dir"
    by (auto simp: strict_prefix_def prefix_def)
  let ?t = "dst @ rel"
  have t: "relocate src dst d = ?t" by (simp add: rel relocate_below)
  have pre: "\<forall>q. prefix q ?t \<longrightarrow> map_of g q = None \<or> map_of g q = Some Dir"
  proof (intro allI impI)
    fix q assume "prefix q ?t"
    then consider "prefix q dst" | "strict_prefix dst q"
      by (metis prefix_append prefix_order.less_le same_prefix_prefix prefix_order.eq_iff append_prefixD prefix_same_cases strict_prefix_def)
    then show "map_of g q = None \<or> map_of g q = Some Dir"
    proof cases
      case 1
      from wf_prefix_dir [OF wf dstd 1] ch [of q] show ?thesis by auto
    next
      case 2
      from empty [OF 2] ch [of q] show ?thesis by auto
    qed
  qed
  from os_makedirs_succeeds [OF wg pre] obtain g1 where g1: "os_makedirs g ?t = Inr g1" by blast
  from os_makedirs_char [OF wg g1] have w1: "wf_fs g1" and d1: "map_of g1 ?t = Some Dir"
    and gr: "grown g g1 ?t" by auto
  have step: "copy_dir src dst d (g, []) = (g1, [])" by (simp add: copy_dir_def t g1)
  have inv1: "dirs_made f src dst g1"
    unfolding dirs_made_def
  proof (intro conjI allI)
    show "wf_fs g1" by (rule w1)
    fix q
    from gr have "map_of g1 q = map_of g q \<or> (map_of g q = None \<and> map_of g1 q = Some Dir \<and> prefix q ?t)"
      by (simp add: grown_def)
    then show "map_of g1 q = map_of f q \<or>
           (map_of f q = None \<and> map_of g1 q = Some Dir \<and> strict_prefix dst q \<and>
            map_of f (src @ drop (length dst) q) = Some Dir)"
    proof
      assume "map_of g1 q = map_of g q"
      with ch [of q] show ?thesis by auto
    next
      assume a: "map_of g q = None \<and> map_of g1 q = Some Dir \<and> prefix q ?t"
      with ch [of q] have fq: "map_of f q = None" by auto
      have "\<not> prefix q dst"
      proof
        assume "prefix q dst"
        from wf_prefix_dir [OF wf dstd this] fq show False by simp
      qed
      with a obtain r' where r': "q = dst @ r'" "prefix r' rel" "r' \<noteq> []"
        by (metis append_Nil2 prefix_append prefix_def prefix_order.eq_iff same_prefix_prefix)
      have "prefix (src @ r') d" using r'(2) by (simp add: rel)
      from wf_prefix_dir [OF wf dd this] have "map_of f (src @ r') = Some Dir" .
      with a fq r' show ?thesis by (auto simp: strict_prefix_def)
    qed
  qed
  have ds': "\<forall>d\<in>set ds. strict_prefix src d \<and> map_of f d = Some Dir" using Cons.prems(2) by simp
  from Cons.IH [OF inv1 ds'] obtain g' where g': "fold (copy_dir src dst) ds (g1, []) = (g', [])"
    "dirs_made f src dst g'" "\<forall>d\<in>set ds. map_of g' (relocate src dst d) = Some Dir"
    "\<forall>q. map_of g1 q = Some Dir \<longrightarrow> map_of g' q = Some Dir" by blast
  have mono: "\<forall>q. map_of g q = Some Dir \<longrightarrow> map_of g' q = Some Dir"
    using gr g'(4) by (auto simp: grown_def) metis
  have "map_of g' (relocate src dst d) = Some Dir" using d1 g'(4) by (simp add: t)
  with g' mono step show ?case by auto
qed

lemma in_set_map_of: "distinct (map fst f) \<Longrightarrow> (q, x) \<in> set f \<longleftrightarrow> map_of f q = Some x"
  by simp

lemma shutil_copytree_char:
  assumes rdy: "copy_ready f src dst"
  shows "\<exists>g. shutil_copytree f src dst = (g, []) \<and> wf_fs g \<and>
           (\<forall>q. map_of g q =
              (if strict_prefix dst q then map_of f (src @ drop (length dst) q) else map_of f q))"
proof -
  from rdy have wf: "wf_fs f" and srcd: "map_of f src = Some Dir" and dstd: "map_of f dst = Some Dir"
    and empty: "\<And>q. strict_prefix dst q \<Longrightarrow> map_of f q = None"
    by (auto simp: copy_ready_def)
  have dist: "distinct (map fst f)" using wf by (rule wf_distinct)
  note mem = in_set_map_of [OF dist]
  have mk: "os_makedirs f dst = Inr f" by (rule os_makedirs_isdir [OF wf dstd])
  have inv0: "dirs_made f src dst f" using wf by (simp add: dirs_made_def)
  have ds: "\<forall>d\<in>set (tree_dirs f src). strict_prefix src d \<and> map_of f d = Some Dir"
    by (auto simp: tree_dirs_iff mem)
  from copy_dirs [OF rdy inv0 ds] obtain g1 where
    g1: "fold (copy_dir src dst) (tree_dirs f src) (f, []) = (g1, [])"
    and inv1: "dirs_made f src dst g1"
    and made: "\<forall>d\<in>set (tree_dirs f src). map_of g1 (relocate src dst d) = Some Dir"
    and mono: "\<forall>q. map_of f q = Some Dir \<longrightarrow> map_of g1 q = Some Dir" by blast
  from inv1 have w1: "wf_fs g1"
    and ch: "\<And>q. map_of g1 q = map_of f q \<or>
           (map_of f q = None \<and> map_of g1 q = Some Dir \<and> strict_prefix dst q \<and>
            map_of f (src @ drop (length dst) q) = Some Dir)"
    by (auto simp: dirs_made_def)
  let ?fl = "tree_files f src"
  have pre: "\<forall>q0 c. (q0, c) \<in> set ?fl \<longrightarrow> relocate src dst q0 \<noteq> [] \<and>
           map_of g1 (relocate src dst q0) \<noteq> Some Dir \<and>
           map_of g1 (butlast (relocate src dst q0)) = Some Dir"
  proof (intro allI impI)
    fix q0 c assume "(q0, c) \<in> set ?fl"
    then have f0: "map_of f q0 = Some (File c)" and sp: "strict_prefix src q0"
      by (auto simp: tree_files_iff mem)
    from sp obtain rel where rel: "q0 = src @ rel" "rel \<noteq> []"
      by (auto simp: strict_prefix_def prefix_def)
    have t: "relocate src dst q0 = dst @ rel" by (simp add: rel relocate_below)
    have a: "dst @ rel \<noteq> []" using rel by simp
    have "strict_prefix dst (dst @ rel)" using rel by (simp add: strict_prefix_def)
    then have b: "map_of g1 (dst @ rel) \<noteq> Some Dir"
      using ch [of "dst @ rel"] empty [of "dst @ rel"] f0 by (auto simp: rel)
    have par: "map_of f (src @ butlast rel) = Some Dir"
      using wf_parent [OF wf f0] rel by (simp add: butlast_append)
    have c: "map_of g1 (dst @ butlast rel) = Some Dir"
    proof (cases "butlast rel = []")
      case True
      with mono dstd show ?thesis by simp
    next
      case False
      then have "src @ butlast rel \<in> set (tree_dirs f src)"
        using par by (auto simp: tree_dirs_iff mem strict_prefix_def)
      with made show ?thesis by (auto simp: relocate_below)
    qed
    show "relocate src dst q0 \<noteq> [] \<and>
           map_of g1 (relocate src dst q0) \<noteq> Some Dir \<and>
           map_of g1 (butlast (relocate src dst q0)) = Some Dir"
      using a b c rel(2) unfolding t by (simp add: butlast_append)
  qed
  let ?M = "map (\<lambda>(q0, c). (relocate src dst q0, File c)) (rev ?fl)"
  from copy_files [OF wf_distinct [OF w1] pre, of "[]"] obtain g where
    g: "fold (copy2 src dst) ?fl (g1, []) = (g, [])" "distinct (map fst g)"
    "\<forall>q. map_of g q = (case map_of ?M q of Some x \<Rightarrow> Some x | None \<Rightarrow> map_of g1 q)" by blast
  have res: "shutil_copytree f src dst = (g, [])"
    by (simp add: shutil_copytree_def srcd mk g1 g(1))
  have Mset: "\<And>q x. (q, x) \<in> set ?M \<longleftrightarrow>
      (\<exists>r c. r \<noteq> [] \<and> q = dst @ r \<and> x = File c \<and> map_of f (src @ r) = Some (File c))"
  proof -
    fix q x
    show "(q, x) \<in> set ?M \<longleftrightarrow>
      (\<exists>r c. r \<noteq> [] \<and> q = dst @ r \<and> x = File c \<and> map_of f (src @ r) = Some (File c))"
    proof
      assume "(q, x) \<in> set ?M"
      then obtain q0 c where qc: "(q0, c) \<in> set ?fl" "q = relocate src dst q0" "x = File c" by auto
      then have f0: "map_of f q0 = Some (File c)" and sp: "strict_prefix src q0"
        by (auto simp: tree_files_iff mem)
      from sp obtain rel where rel: "q0 = src @ rel" "rel \<noteq> []"
        by (auto simp: strict_prefix_def prefix_def)
      with qc f0 show "\<exists>r c. r \<noteq> [] \<and> q = dst @ r \<and> x = File c \<and> map_of f (src @ r) = Some (File c)"
        by (auto simp: relocate_below)
    next
      assume "\<exists>r c. r \<noteq> [] \<and> q = dst @ r \<and> x = File c \<and> map_of f (src @ r) = Some (File c)"
      then obtain r c where r: "r \<noteq> []" "q = dst @ r" "x = File c" "map_of f (src @ r) = Some (File c)"
        by blast
      then have "(src @ r, c) \<in> set ?fl" by (auto simp: tree_files_iff mem strict_prefix_def)
      then have "(relocate src dst (src @ r), File c) \<in> set ?M" by force
      with r show "(q, x) \<in> set ?M" by (simp add: relocate_below)
    qed
  qed
  have Mdist: "distinct (map fst ?M)"
  proof -
    have "inj_on (relocate src dst) (fst ` set ?fl)"
    proof (rule inj_onI)
      fix a b assume ab: "a \<in> fst ` set ?fl" "b \<in> fst ` set ?fl" "relocate src dst a = relocate src dst b"
      then have "prefix src a" "prefix src b"
        by (auto simp: tree_files_iff strict_prefix_def)
      then obtain ra rb where "a = src @ ra" "b = src @ rb"
        unfolding prefix_def by blast
      with ab(3) show "a = b" by (simp add: relocate_below)
    qed
    then have "inj_on (relocate src dst) (set (map fst ?fl))" by simp
    with tree_files_distinct [OF dist, of src]
    have "distinct (map (relocate src dst) (map fst ?fl))"
      by (subst distinct_map) blast
    moreover have "map fst ?M = rev (map (relocate src dst) (map fst ?fl))"
      by (simp add: rev_map comp_def case_prod_beta)
    ultimately show ?thesis by simp
  qed
  have Mmap: "\<And>q x. map_of ?M q = Some x \<longleftrightarrow>
      (\<exists>r c. r \<noteq> [] \<and> q = dst @ r \<and> x = File c \<and> map_of f (src @ r) = Some (File c))"
    using Mset map_of_eq_Some_iff [OF Mdist] by simp
  have final: "\<forall>q. map_of g q =
              (if strict_prefix dst q then map_of f (src @ drop (length dst) q) else map_of f q)"
  proof
    fix q
    show "map_of g q = (if strict_prefix dst q then map_of f (src @ drop (length dst) q) else map_of f q)"
    proof (cases "strict_prefix dst q")
      case False
      have "map_of ?M q = None"
      proof (cases "map_of ?M q")
        case (Some x)
        with Mmap [of q x] False show ?thesis by (auto simp: strict_prefix_def)
      qed simp
      moreover have "map_of g1 q = map_of f q" using ch [of q] False by auto
      ultimately show ?thesis using g(3) False by simp
    next
      case True
      then obtain r where r: "q = dst @ r" "r \<noteq> []" by (auto simp: strict_prefix_def prefix_def)
      have fq: "map_of f q = None" by (rule empty [OF True])
      show ?thesis
      proof (cases "map_of f (src @ r)")
        case None
        have "map_of ?M q = None"
        proof (cases "map_of ?M q")
          case (Some x)
          with Mmap [of q x] None r show ?thesis by auto
        qed simp
        moreover have "map_of g1 q = None" using ch [of q] fq None r by auto
        ultimately show ?thesis using g(3) True None r by simp
      next
        case (Some y)
        show ?thesis
        proof (cases y)
          case (File c)
          with Some r have "map_of ?M q = Some (File c)" using Mmap [of q "File c"] by auto
          with g(3) True Some File r show ?thesis by simp
        next
          case Dir
          have "map_of ?M q = None"
          proof (cases "map_of ?M q")
            case (Some x)
            with Mmap [of q x] \<open>map_of f (src @ r) = Some y\<close> Dir r show ?thesis by auto
          qed simp
          moreover have "src @ r \<in> set (tree_dirs f src)"
            using Some Dir r by (auto simp: tree_dirs_iff mem strict_prefix_def)
          then have "map_of g1 q = Some Dir" using made r by (auto simp: relocate_below)
          ultimately show ?thesis using g(3) True Some Dir r by simp
        qed
      qed
    qed
  qed
  have "wf_fs g"
    unfolding wf_fs_def
  proof (intro conjI allI impI)
    show "distinct (map fst g)" by (rule g(2))
    show "map_of g [] = Some Dir" using final wf by (simp add: wf_fs_def)
    fix q x assume a: "q \<noteq> [] \<and> map_of g q = Some x"
    show "map_of g (butlast q) = Some Dir"
    proof (cases "strict_prefix dst q")
      case False
      then have "\<not> strict_prefix dst (butlast q)"
        by (meson prefix_order.less_le_trans prefixeq_butlast)
      with final False a wf_parent [OF wf, of q x] show ?thesis by simp
    next
      case True
      then obtain r where r: "q = dst @ r" "r \<noteq> []" by (auto simp: strict_prefix_def prefix_def)
      with final a True have s: "map_of f (src @ r) = Some x" by simp
      have par: "map_of f (src @ butlast r) = Some Dir"
        using wf_parent [OF wf s] r by (simp add: butlast_append)
      show ?thesis
      proof (cases "butlast r = []")
        case True
        with final dstd r show ?thesis by (simp add: butlast_append)
      next
        case False
        then have "strict_prefix dst (dst @ butlast r)" by (simp add: strict_prefix_def)
        with final par r show ?thesis by (simp add: butlast_append)
      qed
    qed
  qed
  with res final show ?thesis by blast
qed

section \<open>The output directory before the walk\<close>

lemma dirs_apart:
  "\<not> prefix (BUILD_DIR e) (OUTPUT_DIR e)" "\<not> prefix (OUTPUT_DIR e) (BUILD_DIR e)"
proof -
  show "\<not> prefix (BUILD_DIR e) (OUTPUT_DIR e)"
  proof (cases "project_dir e" rule: rev_cases)
    case Nil
    then show ?thesis
      by (simp add: BUILD_DIR_def OUTPUT_DIR_def FRONTEND_DIR_def os_path_join_def os_path_dirname_def)
  next
    case (snoc ps x)
    then show ?thesis
      by (simp add: BUILD_DIR_def OUTPUT_DIR_def FRONTEND_DIR_def os_path_join_def os_path_dirname_def)
  qed
  show "\<not> prefix (OUTPUT_DIR e) (BUILD_DIR e)"
  proof (cases "project_dir e" rule: rev_cases)
    case Nil
    then show ?thesis
      by (simp add: BUILD_DIR_def OUTPUT_DIR_def FRONTEND_DIR_def os_path_join_def os_path_dirname_def)
  next
    case (snoc ps x)
    then show ?thesis
      by (simp add: BUILD_DIR_def OUTPUT_DIR_def FRONTEND_DIR_def os_path_join_def os_path_dirname_def)
  qed
qed

lemma build_not_in_output: "\<not> prefix (OUTPUT_DIR e) (BUILD_DIR e @ r)"
proof
  assume a: "prefix (OUTPUT_DIR e) (BUILD_DIR e @ r)"
  have "prefix (BUILD_DIR e) (BUILD_DIR e @ r)" by simp
  from prefix_same_cases [OF a this] dirs_apart [of e] show False by auto
qed

lemma build_not_above_output: "\<not> prefix (BUILD_DIR e @ r) (OUTPUT_DIR e)"
  using dirs_apart(1) [of e] by (meson append_prefixD)

lemma OUTPUT_DIR_nonempty: "OUTPUT_DIR e \<noteq> []"
  by (simp add: OUTPUT_DIR_def os_path_join_def)

lemma walk_loop_wf:
  "wf_fs (fsys (fst acc)) \<Longrightarrow> wf_fs (fsys (fst (walk_loop e stack acc)))"
proof (induction e stack acc rule: walk_loop.induct)
  case (1 e acc)
  then show ?case by simp
next
  case (2 e root stack s cc ec)
  show ?case
  proof (cases "os_scandir (fsys s) root")
    case None
    with 2 show ?thesis by simp
  next
    case (Some x)
    obtain dirs files where x: "x = (dirs, files)" by (cases x)
    have "wf_fs (fsys (fst (files_loop e root files (s, cc, ec))))"
      using files_loop_wf [of "(s, cc, ec)" e root files] "2.prems" by simp
    from "2.IH"(2) [OF Some x [symmetric] this] Some x show ?thesis by simp
  qed
qed

lemma prepare_output_fails:
  "os_makedirs (fsys s) (OUTPUT_DIR e) = Inl err \<Longrightarrow> prepare_output e s = (Some err, s)"
  by (simp add: prepare_output_def)

lemma prepare_output_cleaned:
  assumes wf: "wf_fs (fsys s)" and mk: "os_makedirs (fsys s) (OUTPUT_DIR e) = Inr f1"
  shows "\<exists>f2. wf_fs f2 \<and> map_of f2 (OUTPUT_DIR e) = Some Dir \<and>
      (\<forall>q. map_of f2 q = (if strict_prefix (OUTPUT_DIR e) q then None else map_of f1 q)) \<and>
      prepare_output e s =
        (let s3 = py_print (Copying_files (BUILD_DIR e) (OUTPUT_DIR e)) (s\<lparr>fsys := f2\<rparr>) in
         case shutil_copytree f2 (BUILD_DIR e) (OUTPUT_DIR e) of
           (f4, []) \<Rightarrow> (None, s3\<lparr>fsys := f4\<rparr>)
         | (f4, err # errs) \<Rightarrow> (Some err, s3\<lparr>fsys := f4\<rparr>))"
proof -
  let ?out = "OUTPUT_DIR e"
  from os_makedirs_char [OF wf mk] have w1: "wf_fs f1" and d1: "map_of f1 ?out = Some Dir" by auto
  have ls: "os_listdir f1 ?out = Inr (children f1 ?out)" by (simp add: os_listdir_def d1)
  from clean_all [OF w1 d1] obtain f2 where f2: "clean_loop ?out (children f1 ?out) f1 = (None, f2)"
    "wf_fs f2" "\<forall>q. map_of f2 q = (if strict_prefix ?out q then None else map_of f1 q)" by blast
  have d2: "map_of f2 ?out = Some Dir" using f2(3) d1 by simp
  have "map_of f2 (butlast ?out) = Some Dir"
    using wf_parent [OF f2(2) d2] OUTPUT_DIR_nonempty by simp
  then have mk2: "os_makedirs f2 (os_path_dirname ?out) = Inr f2"
    using os_makedirs_isdir [OF f2(2)] by (simp add: os_path_dirname_def)
  have "prepare_output e s =
        (let s3 = py_print (Copying_files (BUILD_DIR e) (OUTPUT_DIR e)) (s\<lparr>fsys := f2\<rparr>) in
         case shutil_copytree f2 (BUILD_DIR e) (OUTPUT_DIR e) of
           (f4, []) \<Rightarrow> (None, s3\<lparr>fsys := f4\<rparr>)
         | (f4, err # errs) \<Rightarrow> (Some err, s3\<lparr>fsys := f4\<rparr>))"
    by (simp add: prepare_output_def mk ls f2(1) mk2 Let_def)
  with f2 d2 show ?thesis by blast
qed

lemma grown_keeps:
  "grown f g name \<Longrightarrow> map_of f q \<noteq> None \<or> \<not> prefix q name \<Longrightarrow> map_of g q = map_of f q"
  by (auto simp: grown_def)

definition copied :: "env \<Rightarrow> filesystem \<Rightarrow> filesystem \<Rightarrow> bool" where
  "copied e f g =
     (wf_fs g \<and> map_of g (OUTPUT_DIR e) = Some Dir \<and>
      (\<forall>r. r \<noteq> [] \<longrightarrow> map_of g (OUTPUT_DIR e @ r) = map_of f (BUILD_DIR e @ r)) \<and>
      (\<forall>r. map_of g (BUILD_DIR e @ r) = map_of f (BUILD_DIR e @ r)))"

lemma prepare_output_dir:
  assumes wf: "wf_fs (fsys s)" and mk: "os_makedirs (fsys s) (OUTPUT_DIR e) = Inr f1"
    and bd: "map_of (fsys s) (BUILD_DIR e) = Some Dir"
  shows "\<exists>f4. prepare_output e s =
           (None, s\<lparr>fsys := f4, trace := trace s @ [Print (Copying_files (BUILD_DIR e) (OUTPUT_DIR e))]\<rparr>) \<and>
           copied e (fsys s) f4"
proof -
  let ?out = "OUTPUT_DIR e" and ?bld = "BUILD_DIR e"
  from os_makedirs_char [OF wf mk] have gr: "grown (fsys s) f1 ?out" by auto
  from prepare_output_cleaned [OF wf mk] obtain f2 where f2: "wf_fs f2" "map_of f2 ?out = Some Dir"
    "\<forall>q. map_of f2 q = (if strict_prefix ?out q then None else map_of f1 q)"
    and po: "prepare_output e s =
        (let s3 = py_print (Copying_files ?bld ?out) (s\<lparr>fsys := f2\<rparr>) in
         case shutil_copytree f2 ?bld ?out of
           (f4, []) \<Rightarrow> (None, s3\<lparr>fsys := f4\<rparr>)
         | (f4, err # errs) \<Rightarrow> (Some err, s3\<lparr>fsys := f4\<rparr>))" by blast
  have keep: "\<And>r. map_of f2 (?bld @ r) = map_of (fsys s) (?bld @ r)"
  proof -
    fix r
    have "\<not> strict_prefix ?out (?bld @ r)" using build_not_in_output [of e r] by (simp add: strict_prefix_def)
    then have "map_of f2 (?bld @ r) = map_of f1 (?bld @ r)" using f2(3) by simp
    also have "\<dots> = map_of (fsys s) (?bld @ r)"
      using grown_keeps [OF gr, of "?bld @ r"] build_not_above_output [of e r] by simp
    finally show "map_of f2 (?bld @ r) = map_of (fsys s) (?bld @ r)" .
  qed
  have "map_of f2 ?bld = Some Dir" using keep [of "[]"] bd by simp
  then have rdy: "copy_ready f2 ?bld ?out" using f2 by (simp add: copy_ready_def)
  from shutil_copytree_char [OF rdy] obtain f4 where f4: "shutil_copytree f2 ?bld ?out = (f4, [])"
    "wf_fs f4"
    "\<forall>q. map_of f4 q = (if strict_prefix ?out q then map_of f2 (?bld @ drop (length ?out) q) else map_of f2 q)"
    by blast
  have "copied e (fsys s) f4"
    unfolding copied_def
  proof (intro conjI allI impI)
    show "wf_fs f4" by (rule f4(2))
    show "map_of f4 ?out = Some Dir" using f4(3) f2(2) by simp
  next
    fix r :: path assume "r \<noteq> []"
    then have "strict_prefix ?out (?out @ r)" by (simp add: strict_prefix_def)
    then show "map_of f4 (?out @ r) = map_of (fsys s) (?bld @ r)" using f4(3) keep by simp
  next
    fix r
    have "\<not> strict_prefix ?out (?bld @ r)" using build_not_in_output [of e r] by (simp add: strict_prefix_def)
    then show "map_of f4 (?bld @ r) = map_of (fsys s) (?bld @ r)" using f4(3) keep by simp
  qed
  moreover have "prepare_output e s =
           (None, s\<lparr>fsys := f4, trace := trace s @ [Print (Copying_files ?bld ?out)]\<rparr>)"
    by (simp add: po f4(1) py_print_def Let_def)
  ultimately show ?thesis by blast
qed

lemma prepare_output_not_dir:
  assumes wf: "wf_fs (fsys s)" and mk: "os_makedirs (fsys s) (OUTPUT_DIR e) = Inr f1"
    and bd: "map_of (fsys s) (BUILD_DIR e) \<noteq> Some Dir"
  shows "\<exists>err f2. prepare_output e s =
           (Some err, s\<lparr>fsys := f2, trace := trace s @ [Print (Copying_files (BUILD_DIR e) (OUTPUT_DIR e))]\<rparr>) \<and>
           wf_fs f2 \<and> map_of f2 (OUTPUT_DIR e) = Some Dir \<and>
           (\<forall>q. strict_prefix (OUTPUT_DIR e) q \<longrightarrow> map_of f2 q = None) \<and>
           (\<forall>r. map_of f2 (BUILD_DIR e @ r) = map_of (fsys s) (BUILD_DIR e @ r))"
proof -
  let ?out = "OUTPUT_DIR e" and ?bld = "BUILD_DIR e"
  from os_makedirs_char [OF wf mk] have gr: "grown (fsys s) f1 ?out" by auto
  from prepare_output_cleaned [OF wf mk] obtain f2 where f2: "wf_fs f2" "map_of f2 ?out = Some Dir"
    "\<forall>q. map_of f2 q = (if strict_prefix ?out q then None else map_of f1 q)"
    and po: "prepare_output e s =
        (let s3 = py_print (Copying_files ?bld ?out) (s\<lparr>fsys := f2\<rparr>) in
         case shutil_copytree f2 ?bld ?out of
           (f4, []) \<Rightarrow> (None, s3\<lparr>fsys := f4\<rparr>)
         | (f4, err # errs) \<Rightarrow> (Some err, s3\<lparr>fsys := f4\<rparr>))" by blast
  have keep: "\<And>r. map_of f2 (?bld @ r) = map_of (fsys s) (?bld @ r)"
  proof -
    fix r
    have "\<not> strict_prefix ?out (?bld @ r)" using build_not_in_output [of e r] by (simp add: strict_prefix_def)
    then have "map_of f2 (?bld @ r) = map_of f1 (?bld @ r)" using f2(3) by simp
    also have "\<dots> = map_of (fsys s) (?bld @ r)"
      using grown_keeps [OF gr, of "?bld @ r"] build_not_above_output [of e r] by simp
    finally show "map_of f2 (?bld @ r) = map_of (fsys s) (?bld @ r)" .
  qed
  have "map_of f2 ?bld \<noteq> Some Dir" using keep [of "[]"] bd by simp
  then have "\<exists>err. shutil_copytree f2 ?bld ?out = (f2, [err])"
    by (auto simp: shutil_copytree_def split: option.splits entry.splits)
  then obtain err where "shutil_copytree f2 ?bld ?out = (f2, [err])" by blast
  then have "prepare_output e s =
           (Some err, s\<lparr>fsys := f2, trace := trace s @ [Print (Copying_files ?bld ?out)]\<rparr>)"
    by (simp add: po py_print_def Let_def)
  with f2 keep show ?thesis by auto
qed

section \<open>What process_frontend_files reports\<close>

definition error_lines :: "event list \<Rightarrow> bool" where
  "error_lines errs = (\<forall>x\<in>set errs. \<exists>p. x = Print (Error_compressing_file p))"

lemma compress_file_trace:
  "compress_file e s p = (b, s') \<Longrightarrow>
     trace s' = trace s @ (if b then [] else [Print (Error_compressing_file p)])"
  by (auto simp: compress_file_def py_print_def split: prod.splits option.splits)

lemma files_loop_trace:
  "files_loop e root names (s, cc, ec) = (s1, cc1, ec1) \<Longrightarrow>
     \<exists>errs. trace s1 = trace s @ errs \<and> error_lines errs \<and> ec1 = ec + length errs"
proof (induction names arbitrary: s cc ec)
  case Nil
  then show ?case by (simp add: error_lines_def)
next
  case (Cons n ns)
  show ?case
  proof (cases "endswith n ''.gz''")
    case True
    with Cons show ?thesis by simp
  next
    case False
    obtain b sa where cf: "compress_file e s (os_path_join root n) = (b, sa)"
      by (cases "compress_file e s (os_path_join root n)")
    then have r: "files_loop e root ns (sa, if b then cc + 1 else cc, if b then ec else ec + 1) = (s1, cc1, ec1)"
      using Cons.prems False by (cases b) simp_all
    from Cons.IH [OF r] obtain errs where errs: "trace s1 = trace sa @ errs" "error_lines errs"
      "ec1 = (if b then ec else ec + 1) + length errs" by blast
    let ?here = "if b then [] else [Print (Error_compressing_file (os_path_join root n))]"
    have "trace s1 = trace s @ (?here @ errs)"
      using compress_file_trace [OF cf] errs(1) by simp
    moreover have "error_lines (?here @ errs)" using errs(2) by (auto simp: error_lines_def)
    moreover have "ec1 = ec + length (?here @ errs)" using errs(3) by simp
    ultimately show ?thesis by blast
  qed
qed

lemma walk_loop_trace:
  "walk_loop e stack (s, cc, ec) = (s', cc', ec') \<Longrightarrow>
     \<exists>errs. trace s' = trace s @ errs \<and> error_lines errs \<and> ec' = ec + length errs"
proof (induction e stack "(s, cc, ec)" arbitrary: s cc ec rule: walk_loop.induct)
  case (1 e)
  then show ?case by (simp add: error_lines_def)
next
  case (2 e root stack s cc ec)
  show ?case
  proof (cases "os_scandir (fsys s) root")
    case None
    with 2 show ?thesis by simp
  next
    case (Some x)
    obtain dirs files where x: "x = (dirs, files)" by (cases x)
    obtain s1 cc1 ec1 where fl: "files_loop e root files (s, cc, ec) = (s1, cc1, ec1)"
      by (cases "files_loop e root files (s, cc, ec)")
    have r: "walk_loop e (map (os_path_join root) dirs @ stack) (s1, cc1, ec1) = (s', cc', ec')"
      using "2.prems" Some x fl by simp
    from files_loop_trace [OF fl] obtain errs1 where e1: "trace s1 = trace s @ errs1"
      "error_lines errs1" "ec1 = ec + length errs1" by blast
    from "2.hyps"(2) [OF Some x [symmetric] fl r] obtain errs2 where e2: "trace s' = trace s1 @ errs2"
      "error_lines errs2" "ec' = ec1 + length errs2" by blast
    have "trace s' = trace s @ (errs1 @ errs2)" using e1 e2 by simp
    moreover have "error_lines (errs1 @ errs2)" using e1 e2 by (auto simp: error_lines_def)
    moreover have "ec' = ec + length (errs1 @ errs2)" using e1 e2 by simp
    ultimately show ?thesis by blast
  qed
qed

definition succeeded :: "env \<Rightarrow> filesystem \<Rightarrow> path set" where
  "succeeded e f = {q \<in> todo f (OUTPUT_DIR e). compressed_ok e f q}"

definition failed :: "env \<Rightarrow> filesystem \<Rightarrow> path set" where
  "failed e f = {q \<in> todo f (OUTPUT_DIR e). \<not> compressed_ok e f q}"

lemma prepare_output_None:
  assumes wf: "wf_fs (fsys s)" and po: "prepare_output e s = (None, s1)"
  shows "copied e (fsys s) (fsys s1) \<and> cwd s1 = cwd s \<and>
         trace s1 = trace s @ [Print (Copying_files (BUILD_DIR e) (OUTPUT_DIR e))]"
proof (cases "os_makedirs (fsys s) (OUTPUT_DIR e)")
  case (Inl err)
  from prepare_output_fails [OF this] po show ?thesis by simp
next
  case (Inr f1)
  show ?thesis
  proof (cases "map_of (fsys s) (BUILD_DIR e) = Some Dir")
    case True
    from prepare_output_dir [OF wf Inr True] po show ?thesis by auto
  next
    case False
    from prepare_output_not_dir [OF wf Inr False] po show ?thesis by auto
  qed
qed

lemma walk_output:
  assumes wf: "wf_fs (fsys s1)" and w: "walk_loop e [OUTPUT_DIR e] (s1, 0, 0) = (s2, cc, ec)"
  shows "(\<forall>q. map_of (fsys s2) q =
            (if strict_prefix (OUTPUT_DIR e) q then walked e (fsys s1) q else map_of (fsys s1) q)) \<and>
         cc = card (succeeded e (fsys s1)) \<and> ec = card (failed e (fsys s1)) \<and>
         (\<exists>errs. trace s2 = trace s1 @ errs \<and> error_lines errs \<and> length errs = ec) \<and>
         wf_fs (fsys s2)"
proof -
  have ind: "indep [OUTPUT_DIR e]" by (simp add: indep_def)
  have "wf_fs (fsys s2)" using walk_loop_wf [of "(s1, 0, 0)" e "[OUTPUT_DIR e]"] wf w by simp
  then show ?thesis
    using walk_loop_char [OF wf ind w] walk_loop_trace [OF w]
    by (auto simp: below_def succeeded_def failed_def)
qed

lemma gz_name_last: "q \<noteq> [] \<Longrightarrow> endswith (last (gz_name q)) ''.gz''"
  by (simp add: gz_name_def)

lemma ungz_gz_name: "q \<noteq> [] \<Longrightarrow> ungz (gz_name q) = q"
  by (simp add: gz_name_def ungz_def)

lemma gz_name_below: "strict_prefix p q \<Longrightarrow> strict_prefix p (gz_name q)"
proof -
  assume a: "strict_prefix p q"
  then have "q \<noteq> []" by auto
  then have g: "gz_name q = butlast q @ [last q @ ''.gz'']" by (simp add: gz_name_def)
  from strict_prefix_butlast [OF a] obtain r where "butlast q = p @ r" by (auto simp: prefix_def)
  then show ?thesis by (simp add: g strict_prefix_def)
qed

lemma walked_success:
  assumes "compressible f q" "compressed_ok e f q"
  shows "\<exists>c. map_of f q = Some (File c) \<and> walked e f q = None \<and>
             walked e f (gz_name q) = Some (File (gzip_bytes e c))"
proof -
  from assms(1) have ne: "q \<noteq> []" by (simp add: compressible_def)
  from compress_try_ok [of e f q] assms(2) obtain c where c: "map_of f q = Some (File c)"
    "map_of (snd (compress_try e f q)) q = None"
    "map_of (snd (compress_try e f q)) (gz_name q) = Some (File (gzip_bytes e c))"
    by (auto simp: compressed_ok_def)
  have "\<not> compressible f (gz_name q)" using gz_name_last [OF ne] by (simp add: compressible_def)
  then have "walked e f (gz_name q) = map_of (snd (compress_try e f q)) (gz_name q)"
    using assms(1) ne gz_name_last [OF ne] by (simp add: walked_def ungz_gz_name)
  with c assms(1) show ?thesis by (simp add: walked_def)
qed

lemma card_outcomes:
  "card (succeeded e f) + card (failed e f) = card (todo f (OUTPUT_DIR e))"
proof -
  have "succeeded e f \<union> failed e f = todo f (OUTPUT_DIR e)" "succeeded e f \<inter> failed e f = {}"
    by (auto simp: succeeded_def failed_def)
  moreover have "finite (succeeded e f)" "finite (failed e f)"
    using finite_todo [of f "OUTPUT_DIR e"] by (auto simp: succeeded_def failed_def)
  ultimately show ?thesis by (metis card_Un_disjoint)
qed

lemma failed_empty: "card (failed e f) = 0 \<longleftrightarrow> failed e f = {}"
  using finite_todo [of f "OUTPUT_DIR e"] by (auto simp: failed_def)

text \<open>
  Claim C7, amended. When the build directory exists and the output directory could be
  emptied and filled (state \<open>s1\<close>), \<open>process_frontend_files\<close> returns failure if and only
  if at least one file fails to compress. A failure does not stop the walk: every file
  below the output directory without the suffix is counted as compressed or as failed, the
  files that can be compressed are compressed whatever happens to the others, one error
  line is printed for each failure, and the last line reports both counts.
\<close>

theorem process_frontend_files_best_effort:
  assumes "wf_fs (fsys s)"
    and "os_path_exists (fsys s) (BUILD_DIR e)"
    and "prepare_output e (py_print (Processing_frontend_files_from (BUILD_DIR e)) s) = (None, s1)"
  shows "\<exists>errs s'.
           process_frontend_files e s = (failed e (fsys s1) = {}, s') \<and>
           trace s' = trace s1 @ [Print Compressing_files] @ errs @
             [Print (Frontend_files_processed (card (succeeded e (fsys s1))) (card (failed e (fsys s1))))] \<and>
           error_lines errs \<and> length errs = card (failed e (fsys s1)) \<and>
           card (succeeded e (fsys s1)) + card (failed e (fsys s1)) = card (todo (fsys s1) (OUTPUT_DIR e)) \<and>
           (\<forall>q\<in>succeeded e (fsys s1). map_of (fsys s') q = None \<and> os_path_isfile (fsys s') (gz_name q))"
proof -
  let ?s0 = "py_print (Processing_frontend_files_from (BUILD_DIR e)) s"
  let ?sc = "py_print Compressing_files s1"
  have "wf_fs (fsys ?s0)" using assms(1) by (simp add: py_print_def)
  from prepare_output_None [OF this assms(3)] have wf1: "wf_fs (fsys s1)" by (simp add: copied_def)
  then have wfc: "wf_fs (fsys ?sc)" by (simp add: py_print_def)
  have fc: "fsys ?sc = fsys s1" by (simp add: py_print_def)
  obtain s2 cc ec where w: "walk_loop e [OUTPUT_DIR e] (?sc, 0, 0) = (s2, cc, ec)"
    by (cases "walk_loop e [OUTPUT_DIR e] (?sc, 0, 0)")
  from walk_output [OF wfc w] obtain errs where
    m: "\<And>q. map_of (fsys s2) q =
            (if strict_prefix (OUTPUT_DIR e) q then walked e (fsys s1) q else map_of (fsys s1) q)"
    and cc: "cc = card (succeeded e (fsys s1))" and ec: "ec = card (failed e (fsys s1))"
    and tr: "trace s2 = trace ?sc @ errs" "error_lines errs" "length errs = ec"
    by (auto simp: fc)
  let ?s' = "py_print (Frontend_files_processed cc ec) s2"
  have res: "process_frontend_files e s = (ec = 0, ?s')"
    using assms(2,3) w by (simp add: process_frontend_files_def Let_def py_print_def)
  have "\<forall>q\<in>succeeded e (fsys s1). map_of (fsys ?s') q = None \<and> os_path_isfile (fsys ?s') (gz_name q)"
  proof
    fix q assume "q \<in> succeeded e (fsys s1)"
    then have q: "strict_prefix (OUTPUT_DIR e) q" "compressible (fsys s1) q" "compressed_ok e (fsys s1) q"
      by (auto simp: succeeded_def todo_def)
    from walked_success [OF q(2,3)] obtain c where c: "walked e (fsys s1) q = None"
      "walked e (fsys s1) (gz_name q) = Some (File (gzip_bytes e c))" by blast
    have "map_of (fsys s2) q = None" using m [of q] q(1) c(1) by simp
    moreover have "map_of (fsys s2) (gz_name q) = Some (File (gzip_bytes e c))"
      using m [of "gz_name q"] gz_name_below [OF q(1)] c(2) by simp
    ultimately show "map_of (fsys ?s') q = None \<and> os_path_isfile (fsys ?s') (gz_name q)"
      by (simp add: py_print_def os_path_isfile_def)
  qed
  moreover have "trace ?s' = trace s1 @ [Print Compressing_files] @ errs @
             [Print (Frontend_files_processed (card (succeeded e (fsys s1))) (card (failed e (fsys s1))))]"
    using tr(1) cc ec by (simp add: py_print_def)
  moreover have "(ec = 0) = (failed e (fsys s1) = {})" using ec failed_empty by simp
  ultimately show ?thesis
    using res tr(2,3) ec card_outcomes [of e "fsys s1"] by auto
qed

lemma wf_fs_list:
  "wf_fs f \<longleftrightarrow>
     distinct (map fst f) \<and> map_of f [] = Some Dir \<and>
     list_all (\<lambda>(q, x). q = [] \<or> map_of f (butlast q) = Some Dir) f"
proof (cases "distinct (map fst f)")
  case False
  then show ?thesis by (simp add: wf_fs_def)
next
  case True
  have "(\<forall>q x. q \<noteq> [] \<and> map_of f q = Some x \<longrightarrow> map_of f (butlast q) = Some Dir) \<longleftrightarrow>
        (\<forall>(q, x)\<in>set f. q = [] \<or> map_of f (butlast q) = Some Dir)"
    using True by (auto simp: map_of_eq_Some_iff)
  with True show ?thesis by (simp add: wf_fs_def list_all_iff)
qed

lemma demo_gzip: "gzip_bytes demo_env c = ''gz:'' @ c"
  by (simp add: demo_env_def)

lemma demo_fault: "fault_at demo_env p = None"
  by (simp add: demo_env_def)

lemmas run_eval = process_frontend_files_def prepare_output_def shutil_copytree_def copy_dir_def
  copy2_def tree_dirs_def tree_files_def relocate_def os_scandir_def compress_file_def
  compress_try_def py_print_def os_makedirs.simps Let_def suffix_to_prefix
  demo_BUILD_DIR demo_OUTPUT_DIR demo_gzip demo_fault

text \<open>
  A build directory in which \<^verbatim>\<open>index.html.gz\<close> is a directory: \<^verbatim>\<open>index.html\<close> cannot be
  compressed, \<^verbatim>\<open>app/main.js\<close> is compressed all the same.
\<close>

definition mixed_fs :: filesystem where
  "mixed_fs =
     demo_fs @ [([''work'', ''Modular_Macropad_Front_End_v2'', ''build'', ''index.html.gz''], Dir)]"

definition mixed_state :: state where
  "mixed_state = \<lparr>fsys = mixed_fs, cwd = [''work'', ''firmware''], trace = []\<rparr>"

definition mixed_copy :: state where
  "mixed_copy =
     \<lparr>fsys = mixed_fs @
        [([''work'', ''firmware'', ''data''], Dir),
         ([''work'', ''firmware'', ''data'', ''web''], Dir),
         ([''work'', ''firmware'', ''data'', ''web'', ''app''], Dir),
         ([''work'', ''firmware'', ''data'', ''web'', ''index.html.gz''], Dir),
         ([''work'', ''firmware'', ''data'', ''web'', ''index.html''], File ''<html>''),
         ([''work'', ''firmware'', ''data'', ''web'', ''app'', ''main.js''], File ''js'')],
      cwd = [''work'', ''firmware''],
      trace = [Print (Processing_frontend_files_from (BUILD_DIR demo_env)),
               Print (Copying_files (BUILD_DIR demo_env) (OUTPUT_DIR demo_env))]\<rparr>"

lemma mixed_prepare:
  "prepare_output demo_env (py_print (Processing_frontend_files_from (BUILD_DIR demo_env)) mixed_state)
     = (None, mixed_copy)"
  by (simp add: run_eval fs_eval mixed_state_def mixed_fs_def demo_fs_def mixed_copy_def)

lemma mixed_run:
  "fst (process_frontend_files demo_env mixed_state) = False \<and>
   trace (snd (process_frontend_files demo_env mixed_state)) =
     [Print (Processing_frontend_files_from (BUILD_DIR demo_env)),
      Print (Copying_files (BUILD_DIR demo_env) (OUTPUT_DIR demo_env)),
      Print Compressing_files,
      Print (Error_compressing_file [''work'', ''firmware'', ''data'', ''web'', ''index.html'']),
      Print (Frontend_files_processed 1 1)]"
  by (simp add: run_eval fs_eval mixed_state_def mixed_fs_def demo_fs_def)

theorem process_frontend_files_best_effort_witness:
  "wf_fs (fsys mixed_state) \<and> os_path_exists (fsys mixed_state) (BUILD_DIR demo_env) \<and>
   prepare_output demo_env (py_print (Processing_frontend_files_from (BUILD_DIR demo_env)) mixed_state)
     = (None, mixed_copy) \<and>
   \<not> fst (process_frontend_files demo_env mixed_state) \<and>
   card (succeeded demo_env (fsys mixed_copy)) = 1 \<and> card (failed demo_env (fsys mixed_copy)) = 1 \<and>
   card (todo (fsys mixed_copy) (OUTPUT_DIR demo_env)) = 2"
proof -
  have a: "wf_fs (fsys mixed_state)"
    by (simp add: wf_fs_list mixed_state_def mixed_fs_def demo_fs_def)
  have b: "os_path_exists (fsys mixed_state) (BUILD_DIR demo_env)"
    by (simp add: os_path_exists_def demo_BUILD_DIR mixed_state_def mixed_fs_def demo_fs_def)
  from process_frontend_files_best_effort [OF a b mixed_prepare] obtain errs s' where
    r: "process_frontend_files demo_env mixed_state = (failed demo_env (fsys mixed_copy) = {}, s')"
    and t: "trace s' = trace mixed_copy @ [Print Compressing_files] @ errs @
             [Print (Frontend_files_processed (card (succeeded demo_env (fsys mixed_copy)))
                (card (failed demo_env (fsys mixed_copy))))]"
    and c: "card (succeeded demo_env (fsys mixed_copy)) + card (failed demo_env (fsys mixed_copy))
              = card (todo (fsys mixed_copy) (OUTPUT_DIR demo_env))"
    by blast
  have "last (trace s') = Print (Frontend_files_processed 1 1)"
    using mixed_run r by simp
  with t have "card (succeeded demo_env (fsys mixed_copy)) = 1 \<and> card (failed demo_env (fsys mixed_copy)) = 1"
    by simp
  with a b c mixed_prepare mixed_run show ?thesis by simp
qed

text \<open>
  Failure without a file that fails: when the output path is a file, \<^verbatim>\<open>os.makedirs\<close>
  raises, the handler of the \<^verbatim>\<open>try\<close> statement returns failure, and no compression was
  attempted. (A missing build directory is another such case.)
\<close>

definition blocked_fs :: filesystem where
  "blocked_fs = demo_fs @ [([''work'', ''firmware'', ''data''], Dir),
                           ([''work'', ''firmware'', ''data'', ''web''], File ''not a directory'')]"

theorem failure_without_file_error_counterexample:
  "process_frontend_files demo_env \<lparr>fsys = blocked_fs, cwd = [''work'', ''firmware''], trace = []\<rparr> =
     (False,
      \<lparr>fsys = blocked_fs, cwd = [''work'', ''firmware''],
       trace = [Print (Processing_frontend_files_from (BUILD_DIR demo_env)),
                Print Error_processing_frontend_files]\<rparr>)"
  by (simp add: run_eval fs_eval blocked_fs_def demo_fs_def)

section \<open>A successful run of process_frontend_files\<close>

text \<open>The files below a directory.\<close>

definition files_under :: "filesystem \<Rightarrow> path \<Rightarrow> path set" where
  "files_under f root = {q. strict_prefix root q \<and> os_path_isfile f q}"

lemma gz_name_append: "r \<noteq> [] \<Longrightarrow> gz_name (p @ r) = p @ gz_name r"
  by (simp add: gz_name_def butlast_append)

lemma ungz_append: "r \<noteq> [] \<Longrightarrow> ungz (p @ r) = p @ ungz r"
  by (simp add: ungz_def butlast_append)

lemma gz_name_inj:
  assumes "r \<noteq> []" "r' \<noteq> []" "gz_name r = gz_name r'"
  shows "r = r'"
proof -
  from assms have "butlast r @ [last r @ ''.gz''] = butlast r' @ [last r' @ ''.gz'']"
    by (simp add: gz_name_def)
  then have "butlast r = butlast r'" "last r = last r'" by auto
  with assms(1,2) show ?thesis by (metis append_butlast_last_id)
qed

lemma walked_dir: "(walked e f q = Some Dir) = (map_of f q = Some Dir)"
  by (simp add: walked_def compress_try_dir)

lemma process_success:
  assumes "process_frontend_files e s = (True, s')"
  shows "\<exists>s1 s2 cc. os_path_exists (fsys s) (BUILD_DIR e) \<and>
      prepare_output e (py_print (Processing_frontend_files_from (BUILD_DIR e)) s) = (None, s1) \<and>
      walk_loop e [OUTPUT_DIR e] (py_print Compressing_files s1, 0, 0) = (s2, cc, 0) \<and>
      fsys s' = fsys s2"
  using assms
  by (auto simp: process_frontend_files_def Let_def py_print_def
      split: if_splits prod.splits option.splits)

text \<open>
  Claim C1. Let no file below the build directory end in \<^verbatim>\<open>.gz\<close>, and let
  \<open>process_frontend_files\<close> return success. Then the output directory holds as many
  files as the build directory; every file of the build directory is there under its name
  with \<^verbatim>\<open>.gz\<close> added, holding the compressed bytes, and not under its own name; every
  file of the output directory is such a compressed file; and below the output directory
  there are the same directories as below the build directory.
\<close>

theorem process_frontend_files_compresses_all:
  assumes wf: "wf_fs (fsys s)"
    and nogz: "\<forall>q\<in>files_under (fsys s) (BUILD_DIR e). \<not> endswith (last q) ''.gz''"
    and run: "process_frontend_files e s = (True, s')"
  shows "card (files_under (fsys s') (OUTPUT_DIR e)) = card (files_under (fsys s) (BUILD_DIR e)) \<and>
         (\<forall>r c. map_of (fsys s) (BUILD_DIR e @ r) = Some (File c) \<longrightarrow>
            map_of (fsys s') (OUTPUT_DIR e @ gz_name r) = Some (File (gzip_bytes e c)) \<and>
            map_of (fsys s') (OUTPUT_DIR e @ r) = None) \<and>
         (\<forall>q\<in>files_under (fsys s') (OUTPUT_DIR e).
            \<exists>r c. q = OUTPUT_DIR e @ gz_name r \<and> map_of (fsys s) (BUILD_DIR e @ r) = Some (File c)) \<and>
         (\<forall>r. r \<noteq> [] \<longrightarrow>
            os_path_isdir (fsys s') (OUTPUT_DIR e @ r) = os_path_isdir (fsys s) (BUILD_DIR e @ r))"
proof -
  let ?out = "OUTPUT_DIR e" and ?bld = "BUILD_DIR e" and ?f = "fsys s"
  let ?s0 = "py_print (Processing_frontend_files_from ?bld) s"
  from process_success [OF run] obtain s1 s2 cc where ex: "os_path_exists ?f ?bld"
    and po: "prepare_output e ?s0 = (None, s1)"
    and wl: "walk_loop e [?out] (py_print Compressing_files s1, 0, 0) = (s2, cc, 0)"
    and fs': "fsys s' = fsys s2" by blast
  let ?g = "fsys s1"
  have "wf_fs (fsys ?s0)" using wf by (simp add: py_print_def)
  from prepare_output_None [OF this po] have cp: "copied e ?f ?g" by (simp add: py_print_def)
  then have wg: "wf_fs ?g" and od: "map_of ?g ?out = Some Dir"
    and img: "\<And>r. r \<noteq> [] \<Longrightarrow> map_of ?g (?out @ r) = map_of ?f (?bld @ r)"
    by (auto simp: copied_def)
  have wc: "wf_fs (fsys (py_print Compressing_files s1))" using wg by (simp add: py_print_def)
  from walk_output [OF wc wl] have
    m: "\<And>q. map_of (fsys s') q = (if strict_prefix ?out q then walked e ?g q else map_of ?g q)"
    and nf: "card (failed e ?g) = 0"
    by (auto simp: py_print_def fs')
  from nf have "failed e ?g = {}" by (simp add: failed_empty)
  then have allok: "\<And>q. strict_prefix ?out q \<Longrightarrow> compressible ?g q \<Longrightarrow> compressed_ok e ?g q"
    by (auto simp: failed_def todo_def)
  have bd: "map_of ?f ?bld = Some Dir"
  proof (rule ccontr)
    assume n: "map_of ?f ?bld \<noteq> Some Dir"
    have w0: "wf_fs (fsys ?s0)" using wf by (simp add: py_print_def)
    show False
    proof (cases "os_makedirs (fsys ?s0) ?out")
      case (Inl err)
      from prepare_output_fails [OF this] po show False by simp
    next
      case (Inr f1)
      from prepare_output_not_dir [OF w0 Inr] n po show False by (auto simp: py_print_def)
    qed
  qed
  have below: "\<And>r. r \<noteq> [] \<Longrightarrow> strict_prefix ?out (?out @ r)" by (simp add: strict_prefix_def)
  have belowb: "\<And>r. r \<noteq> [] \<Longrightarrow> strict_prefix ?bld (?bld @ r)" by (simp add: strict_prefix_def)
  have comp: "\<And>r c. r \<noteq> [] \<Longrightarrow> map_of ?f (?bld @ r) = Some (File c) \<Longrightarrow> compressible ?g (?out @ r)"
  proof -
    fix r c assume r: "r \<noteq> []" and c: "map_of ?f (?bld @ r) = Some (File c)"
    then have "?bld @ r \<in> files_under ?f ?bld"
      using belowb [OF r] by (simp add: files_under_def os_path_isfile_def)
    with nogz have "\<not> endswith (last (?bld @ r)) ''.gz''" by blast
    then have "\<not> endswith (last (?out @ r)) ''.gz''" using r by simp
    with r c img [OF r] show "compressible ?g (?out @ r)"
      by (simp add: compressible_def os_path_isfile_def)
  qed
  have A: "\<forall>r c. map_of ?f (?bld @ r) = Some (File c) \<longrightarrow>
            map_of (fsys s') (?out @ gz_name r) = Some (File (gzip_bytes e c)) \<and>
            map_of (fsys s') (?out @ r) = None"
  proof (intro allI impI)
    fix r c assume c: "map_of ?f (?bld @ r) = Some (File c)"
    have r: "r \<noteq> []" using c bd by auto
    let ?q = "?out @ r"
    have cq: "compressible ?g ?q" by (rule comp [OF r c])
    from walked_success [OF cq allok [OF below [OF r] cq]] img [OF r] c
    have w: "walked e ?g ?q = None" "walked e ?g (gz_name ?q) = Some (File (gzip_bytes e c))"
      by auto
    have "map_of (fsys s') ?q = None" using m [of ?q] below [OF r] w(1) by simp
    moreover have "map_of (fsys s') (gz_name ?q) = Some (File (gzip_bytes e c))"
      using m [of "gz_name ?q"] gz_name_below [OF below [OF r]] w(2) by simp
    ultimately show "map_of (fsys s') (?out @ gz_name r) = Some (File (gzip_bytes e c)) \<and>
            map_of (fsys s') (?out @ r) = None"
      by (simp add: gz_name_append [OF r])
  qed
  have B: "\<forall>q\<in>files_under (fsys s') ?out.
            \<exists>r c. q = ?out @ gz_name r \<and> map_of ?f (?bld @ r) = Some (File c)"
  proof
    fix q assume "q \<in> files_under (fsys s') ?out"
    then have sp: "strict_prefix ?out q" and isf: "os_path_isfile (fsys s') q"
      by (auto simp: files_under_def)
    from sp obtain r where r: "q = ?out @ r" "r \<noteq> []" by (auto simp: strict_prefix_def prefix_def)
    from isf obtain x where x: "walked e ?g q = Some (File x)"
      using m [of q] sp by (auto simp: os_path_isfile_def split: option.splits entry.splits)
    have nc: "\<not> compressible ?g q"
    proof
      assume cq: "compressible ?g q"
      from walked_success [OF cq allok [OF sp cq]] x show False by auto
    qed
    have qne: "q \<noteq> []" using r by simp
    show "\<exists>r c. q = ?out @ gz_name r \<and> map_of ?f (?bld @ r) = Some (File c)"
    proof (cases "endswith (last q) ''.gz'' \<and> compressible ?g (ungz q)")
      case True
      have u: "ungz q = ?out @ ungz r" using r by (simp add: ungz_append)
      from True obtain c where "map_of ?g (?out @ ungz r) = Some (File c)"
        by (auto simp: u compressible_def os_path_isfile_def split: option.splits entry.splits)
      then have c: "map_of ?f (?bld @ ungz r) = Some (File c)" using img [of "ungz r"] by simp
      have "q = gz_name (ungz q)" using True qne by (simp add: gz_name_ungz)
      also have "\<dots> = ?out @ gz_name (ungz r)" by (simp add: u gz_name_append)
      finally show ?thesis using c by blast
    next
      case False
      with nc x have fq: "map_of ?g q = Some (File x)" by (auto simp: walked_def)
      with nc qne have "endswith (last q) ''.gz''"
        by (simp add: compressible_def os_path_isfile_def)
      moreover have "compressible ?g q" using comp [OF r(2)] fq img [OF r(2)] r(1) by simp
      ultimately show ?thesis using nc by simp
    qed
  qed
  have C: "\<forall>r. r \<noteq> [] \<longrightarrow>
            os_path_isdir (fsys s') (?out @ r) = os_path_isdir ?f (?bld @ r)"
    using m below img by (simp add: os_path_isdir_def walked_dir)
  let ?h = "\<lambda>q. ?out @ gz_name (drop (length ?bld) q)"
  have inj: "inj_on ?h (files_under ?f ?bld)"
  proof (rule inj_onI)
    fix a b assume "a \<in> files_under ?f ?bld" "b \<in> files_under ?f ?bld" and h: "?h a = ?h b"
    then obtain ra rb where ab: "a = ?bld @ ra" "ra \<noteq> []" "b = ?bld @ rb" "rb \<noteq> []"
      by (auto simp: files_under_def strict_prefix_def prefix_def)
    with h have "gz_name ra = gz_name rb" by simp
    from gz_name_inj [OF ab(2,4) this] ab show "a = b" by simp
  qed
  have image: "?h ` files_under ?f ?bld = files_under (fsys s') ?out"
  proof (intro set_eqI iffI)
    fix q assume "q \<in> ?h ` files_under ?f ?bld"
    then obtain a where a: "a \<in> files_under ?f ?bld" "q = ?h a" by blast
    then obtain r c where r: "a = ?bld @ r" "r \<noteq> []" "map_of ?f (?bld @ r) = Some (File c)"
      by (auto simp: files_under_def strict_prefix_def prefix_def os_path_isfile_def
          split: option.splits entry.splits)
    from A r(3) have "map_of (fsys s') (?out @ gz_name r) = Some (File (gzip_bytes e c))" by blast
    then show "q \<in> files_under (fsys s') ?out"
      using a(2) r(1) by (simp add: files_under_def os_path_isfile_def strict_prefix_def)
  next
    fix q assume "q \<in> files_under (fsys s') ?out"
    with B obtain r c where r: "q = ?out @ gz_name r" "map_of ?f (?bld @ r) = Some (File c)" by blast
    have rn: "r \<noteq> []" using r(2) bd by auto
    then have "?bld @ r \<in> files_under ?f ?bld"
      using r(2) by (simp add: files_under_def os_path_isfile_def strict_prefix_def)
    moreover have "?h (?bld @ r) = q" by (simp add: r(1))
    ultimately show "q \<in> ?h ` files_under ?f ?bld" by blast
  qed
  have "card (files_under (fsys s') ?out) = card (files_under ?f ?bld)"
    unfolding image [symmetric] by (rule card_image [OF inj])
  with A B C show ?thesis by blast
qed

lemma files_under_list:
  assumes "distinct (map fst f)"
  shows "files_under f root = set (map fst (filter (\<lambda>(q, x). strict_prefix root q \<and> x \<noteq> Dir) f))"
proof (intro set_eqI iffI)
  fix q assume "q \<in> files_under f root"
  then obtain c where "strict_prefix root q" "map_of f q = Some (File c)"
    by (auto simp: files_under_def os_path_isfile_def split: option.splits entry.splits)
  then have "(q, File c) \<in> set f" "strict_prefix root q" using assms by auto
  then show "q \<in> set (map fst (filter (\<lambda>(q, x). strict_prefix root q \<and> x \<noteq> Dir) f))"
    by force
next
  fix q assume "q \<in> set (map fst (filter (\<lambda>(q, x). strict_prefix root q \<and> x \<noteq> Dir) f))"
  then obtain x where "(q, x) \<in> set f" "strict_prefix root q" "x \<noteq> Dir" by auto
  then have "map_of f q = Some x" "x \<noteq> Dir" "strict_prefix root q" using assms by auto
  then show "q \<in> files_under f root"
    by (cases x) (auto simp: files_under_def os_path_isfile_def)
qed

text \<open>The run on the small project, and what it leaves.\<close>

definition packed_fs :: filesystem where
  "packed_fs =
     demo_fs @
     [([''work'', ''firmware'', ''data''], Dir),
      ([''work'', ''firmware'', ''data'', ''web''], Dir),
      ([''work'', ''firmware'', ''data'', ''web'', ''app''], Dir),
      ([''work'', ''firmware'', ''data'', ''web'', ''index.html.gz''], File ''gz:<html>''),
      ([''work'', ''firmware'', ''data'', ''web'', ''app'', ''main.js.gz''], File ''gz:js'')]"

definition packed_state :: state where
  "packed_state =
     \<lparr>fsys = packed_fs, cwd = [''work'', ''firmware''],
      trace = [Print (Processing_frontend_files_from (BUILD_DIR demo_env)),
               Print (Copying_files (BUILD_DIR demo_env) (OUTPUT_DIR demo_env)),
               Print Compressing_files,
               Print (Frontend_files_processed 2 0)]\<rparr>"

lemma demo_run: "process_frontend_files demo_env demo_state = (True, packed_state)"
  by (simp add: run_eval fs_eval demo_state_def demo_fs_def packed_state_def packed_fs_def)

lemma demo_wf: "wf_fs (fsys demo_state)"
  by (simp add: wf_fs_list demo_state_def demo_fs_def)

lemma demo_build_files:
  "files_under (fsys demo_state) (BUILD_DIR demo_env) =
     {[''work'', ''Modular_Macropad_Front_End_v2'', ''build'', ''index.html''],
      [''work'', ''Modular_Macropad_Front_End_v2'', ''build'', ''app'', ''main.js'']}"
proof -
  have "distinct (map fst (fsys demo_state))" using demo_wf by (rule wf_distinct)
  from files_under_list [OF this] show ?thesis
    by (simp add: demo_state_def demo_fs_def demo_BUILD_DIR strict_prefix_def)
qed

theorem process_frontend_files_compresses_all_witness:
  "wf_fs (fsys demo_state) \<and>
   files_under (fsys demo_state) (BUILD_DIR demo_env) =
     {[''work'', ''Modular_Macropad_Front_End_v2'', ''build'', ''index.html''],
      [''work'', ''Modular_Macropad_Front_End_v2'', ''build'', ''app'', ''main.js'']} \<and>
   process_frontend_files demo_env demo_state = (True, packed_state) \<and>
   card (files_under (fsys packed_state) (OUTPUT_DIR demo_env)) = 2 \<and>
   map_of (fsys packed_state) [''work'', ''firmware'', ''data'', ''web'', ''app'', ''main.js.gz'']
     = Some (File ''gz:js'') \<and>
   map_of (fsys packed_state) [''work'', ''firmware'', ''data'', ''web'', ''app'', ''main.js''] = None \<and>
   os_path_isdir (fsys packed_state) [''work'', ''firmware'', ''data'', ''web'', ''app'']"
proof -
  have nogz: "\<forall>q\<in>files_under (fsys demo_state) (BUILD_DIR demo_env). \<not> endswith (last q) ''.gz''"
    by (simp add: demo_build_files endswith_def suffix_to_prefix)
  note t = process_frontend_files_compresses_all [OF demo_wf nogz demo_run]
  have n: "card (files_under (fsys demo_state) (BUILD_DIR demo_env)) = 2"
    by (simp add: demo_build_files)
  have src: "map_of (fsys demo_state) (BUILD_DIR demo_env @ [''app'', ''main.js'']) = Some (File ''js'')"
    "os_path_isdir (fsys demo_state) (BUILD_DIR demo_env @ [''app''])"
    by (simp_all add: demo_state_def demo_fs_def demo_BUILD_DIR os_path_isdir_def)
  from t src(1) have
    "map_of (fsys packed_state) (OUTPUT_DIR demo_env @ gz_name [''app'', ''main.js'']) = Some (File (gzip_bytes demo_env ''js'')) \<and>
     map_of (fsys packed_state) (OUTPUT_DIR demo_env @ [''app'', ''main.js'']) = None"
    by blast
  moreover from t src(2) have "os_path_isdir (fsys packed_state) (OUTPUT_DIR demo_env @ [''app''])"
    by simp
  moreover from t n have "card (files_under (fsys packed_state) (OUTPUT_DIR demo_env)) = 2" by simp
  ultimately show ?thesis
    using demo_wf demo_build_files demo_run
    by (simp add: demo_OUTPUT_DIR demo_gzip gz_name_def)
qed

section \<open>Running process_frontend_files twice\<close>

text \<open>
  The names of the compressed files below the output directory, and what a run on a well
  formed file system \<open>f\<close> leaves (\<open>h\<close>): nothing changed when the build directory is
  missing or the output directory cannot be made; otherwise an output directory that is
  empty (the build directory is a file) or holds the walked copy of the build directory,
  with the build directory as it was.
\<close>

definition gz_names :: "env \<Rightarrow> filesystem \<Rightarrow> path set" where
  "gz_names e f = {q. strict_prefix (OUTPUT_DIR e) q \<and> os_path_isfile f q \<and> endswith (last q) ''.gz''}"

definition outcome_of_run :: "env \<Rightarrow> filesystem \<Rightarrow> filesystem \<Rightarrow> bool" where
  "outcome_of_run e f h =
     (if \<not> os_path_exists f (BUILD_DIR e) then h = f
      else case os_makedirs f (OUTPUT_DIR e) of
        Inl err \<Rightarrow> h = f
      | Inr f1 \<Rightarrow>
          wf_fs h \<and> map_of h (OUTPUT_DIR e) = Some Dir \<and>
          (\<forall>r. map_of h (BUILD_DIR e @ r) = map_of f (BUILD_DIR e @ r)) \<and>
          (if map_of f (BUILD_DIR e) = Some Dir
           then \<exists>g. copied e f g \<and> (\<forall>q. strict_prefix (OUTPUT_DIR e) q \<longrightarrow> map_of h q = walked e g q)
           else \<forall>q. strict_prefix (OUTPUT_DIR e) q \<longrightarrow> map_of h q = None))"

lemma fsys_py_print: "fsys (py_print m s) = fsys s"
  by (simp add: py_print_def)

lemma process_outcome:
  assumes wf: "wf_fs (fsys s)"
  shows "outcome_of_run e (fsys s) (fsys (snd (process_frontend_files e s)))"
proof (cases "os_path_exists (fsys s) (BUILD_DIR e)")
  case False
  then show ?thesis
    by (simp add: outcome_of_run_def process_frontend_files_def py_print_def Let_def)
next
  case True
  let ?out = "OUTPUT_DIR e" and ?bld = "BUILD_DIR e" and ?f = "fsys s"
  let ?s0 = "py_print (Processing_frontend_files_from ?bld) s"
  have f0: "fsys ?s0 = ?f" by (simp add: py_print_def)
  have w0: "wf_fs (fsys ?s0)" using wf by (simp add: f0)
  show ?thesis
  proof (cases "os_makedirs ?f ?out")
    case (Inl err)
    then have "os_makedirs (fsys ?s0) ?out = Inl err" by (simp add: f0)
    from prepare_output_fails [OF this] True Inl show ?thesis
      by (simp add: outcome_of_run_def process_frontend_files_def py_print_def Let_def)
  next
    case (Inr f1)
    then have mk: "os_makedirs (fsys ?s0) ?out = Inr f1" by (simp add: f0)
    show ?thesis
    proof (cases "map_of ?f ?bld = Some Dir")
      case False
      then have "map_of (fsys ?s0) ?bld \<noteq> Some Dir" by (simp add: f0)
      from prepare_output_not_dir [OF w0 mk this] obtain err f2 where
        po: "prepare_output e ?s0 =
           (Some err, ?s0\<lparr>fsys := f2, trace := trace ?s0 @ [Print (Copying_files ?bld ?out)]\<rparr>)"
        and f2: "wf_fs f2" "map_of f2 ?out = Some Dir"
          "\<forall>q. strict_prefix ?out q \<longrightarrow> map_of f2 q = None"
          "\<forall>r. map_of f2 (?bld @ r) = map_of ?f (?bld @ r)"
        by (auto simp: f0)
      have "fsys (snd (process_frontend_files e s)) = f2"
        using True by (simp add: process_frontend_files_def Let_def fsys_py_print po)
      with f2 True Inr False show ?thesis by (simp add: outcome_of_run_def)
    next
      case bd: True
      then have "map_of (fsys ?s0) ?bld = Some Dir" by (simp add: f0)
      from prepare_output_dir [OF w0 mk this] obtain g where
        po: "prepare_output e ?s0 =
           (None, ?s0\<lparr>fsys := g, trace := trace ?s0 @ [Print (Copying_files ?bld ?out)]\<rparr>)"
        and cp: "copied e ?f g" by (auto simp: f0)
      let ?s1 = "?s0\<lparr>fsys := g, trace := trace ?s0 @ [Print (Copying_files ?bld ?out)]\<rparr>"
      let ?sc = "py_print Compressing_files ?s1"
      have gc: "fsys ?sc = g" by (simp add: py_print_def)
      from cp have wg: "wf_fs g" and od: "map_of g ?out = Some Dir"
        and keep: "\<And>r. map_of g (?bld @ r) = map_of ?f (?bld @ r)" by (auto simp: copied_def)
      obtain s2 cc ec where w: "walk_loop e [?out] (?sc, 0, 0) = (s2, cc, ec)"
        by (cases "walk_loop e [?out] (?sc, 0, 0)")
      have wc: "wf_fs (fsys ?sc)" using wg by (simp add: gc)
      from walk_output [OF wc w] have
        m: "\<And>q. map_of (fsys s2) q = (if strict_prefix ?out q then walked e g q else map_of g q)"
        and w2: "wf_fs (fsys s2)" by (auto simp: gc)
      have res: "fsys (snd (process_frontend_files e s)) = fsys s2"
        using True by (simp add: process_frontend_files_def Let_def fsys_py_print po w del: walk_loop.simps)
      have "\<forall>r. map_of (fsys s2) (?bld @ r) = map_of ?f (?bld @ r)"
        using m keep build_not_in_output [of e] by (simp add: strict_prefix_def)
      moreover have "map_of (fsys s2) ?out = Some Dir" using m od by simp
      ultimately show ?thesis
        using True Inr bd cp m w2 by (auto simp: outcome_of_run_def res)
    qed
  qed
qed

lemma copied_agree:
  assumes "copied e f g" "copied e f' g'" "\<forall>r. map_of f' (BUILD_DIR e @ r) = map_of f (BUILD_DIR e @ r)"
    and "prefix (OUTPUT_DIR e) p"
  shows "map_of g' p = map_of g p"
proof -
  from assms(4) obtain r where r: "p = OUTPUT_DIR e @ r" by (auto simp: prefix_def)
  show ?thesis
  proof (cases "r = []")
    case True
    with assms(1,2) r show ?thesis by (simp add: copied_def)
  next
    case False
    with assms(1,2,3) r show ?thesis by (simp add: copied_def)
  qed
qed

lemma walked_agree:
  assumes "\<And>p. prefix root p \<Longrightarrow> map_of g' p = map_of g p" "strict_prefix root q"
  shows "walked e g' q = walked e g q"
proof (rule walked_cong)
  have pb: "prefix root (butlast q)" by (rule strict_prefix_butlast [OF assms(2)])
  show "map_of g' q = map_of g q" using assms by (simp add: strict_prefix_def)
  show "map_of g' (gz_name q) = map_of g (gz_name q)"
    using assms(1) gz_name_below [OF assms(2)] by (simp add: strict_prefix_def)
  show "map_of g' (butlast q) = map_of g (butlast q)" using assms(1) pb by simp
  show "map_of g' (ungz q) = map_of g (ungz q)"
    using assms(1) pb by (auto simp: ungz_def prefix_def)
qed

lemma second_run_same:
  assumes wf: "wf_fs f" and r1: "outcome_of_run e f h" and r2: "outcome_of_run e h k"
    and q: "strict_prefix (OUTPUT_DIR e) q"
  shows "map_of k q = map_of h q"
proof (cases "os_path_exists f (BUILD_DIR e)")
  case False
  with r1 have "h = f" by (simp add: outcome_of_run_def)
  with r2 False show ?thesis by (simp add: outcome_of_run_def)
next
  case True
  show ?thesis
  proof (cases "os_makedirs f (OUTPUT_DIR e)")
    case (Inl err)
    with r1 True have "h = f" by (simp add: outcome_of_run_def)
    with r2 True Inl show ?thesis by (simp add: outcome_of_run_def)
  next
    case (Inr f1)
    with r1 True have wh: "wf_fs h" and od: "map_of h (OUTPUT_DIR e) = Some Dir"
      and keep: "\<forall>r. map_of h (BUILD_DIR e @ r) = map_of f (BUILD_DIR e @ r)"
      by (auto simp: outcome_of_run_def)
    have exh: "os_path_exists h (BUILD_DIR e)"
      using True keep [rule_format, of "[]"] by (simp add: os_path_exists_def)
    have mkh: "os_makedirs h (OUTPUT_DIR e) = Inr h" by (rule os_makedirs_isdir [OF wh od])
    have bdh: "map_of h (BUILD_DIR e) = map_of f (BUILD_DIR e)"
      using keep [rule_format, of "[]"] by simp
    show ?thesis
    proof (cases "map_of f (BUILD_DIR e) = Some Dir")
      case False
      with r1 True Inr q have "map_of h q = None" by (simp add: outcome_of_run_def)
      moreover from r2 exh mkh bdh False q have "map_of k q = None"
        by (simp add: outcome_of_run_def)
      ultimately show ?thesis by simp
    next
      case bd: True
      with r1 True Inr obtain g where g: "copied e f g"
        "\<forall>q. strict_prefix (OUTPUT_DIR e) q \<longrightarrow> map_of h q = walked e g q"
        by (auto simp: outcome_of_run_def)
      from r2 exh mkh bdh bd obtain g' where g': "copied e h g'"
        "\<forall>q. strict_prefix (OUTPUT_DIR e) q \<longrightarrow> map_of k q = walked e g' q"
        by (auto simp: outcome_of_run_def)
      have "\<And>p. prefix (OUTPUT_DIR e) p \<Longrightarrow> map_of g' p = map_of g p"
        by (rule copied_agree [OF g(1) g'(1) keep])
      from walked_agree [OF this q] g(2) g'(2) q show ?thesis by simp
    qed
  qed
qed

lemma process_keeps_wf:
  assumes "wf_fs (fsys s)"
  shows "wf_fs (fsys (snd (process_frontend_files e s)))"
proof -
  from process_outcome [OF assms, of e] show ?thesis
    using assms by (auto simp: outcome_of_run_def split: if_splits sum.splits)
qed

text \<open>
  Claim C8. After a second run, right after the first and in the same environment, the
  set of the names of the compressed files below the output directory is what it was after
  the first run, whatever the first run found in the output directory and whether or not
  the runs succeed.
\<close>

theorem process_twice_same_names:
  assumes "wf_fs (fsys s)"
  shows "gz_names e (fsys (snd (process_frontend_files e (snd (process_frontend_files e s))))) =
         gz_names e (fsys (snd (process_frontend_files e s)))"
proof -
  let ?s1 = "snd (process_frontend_files e s)"
  let ?s2 = "snd (process_frontend_files e ?s1)"
  have w1: "wf_fs (fsys ?s1)" by (rule process_keeps_wf [OF assms])
  have "\<And>q. strict_prefix (OUTPUT_DIR e) q \<Longrightarrow> map_of (fsys ?s2) q = map_of (fsys ?s1) q"
    by (rule second_run_same [OF assms process_outcome [OF assms] process_outcome [OF w1]])
  then show ?thesis by (auto simp: gz_names_def os_path_isfile_def)
qed

lemma gz_names_files: "gz_names e f = {q \<in> files_under f (OUTPUT_DIR e). endswith (last q) ''.gz''}"
  by (auto simp: gz_names_def files_under_def)

theorem process_twice_same_names_witness:
  "wf_fs (fsys demo_state) \<and>
   snd (process_frontend_files demo_env demo_state) = packed_state \<and>
   gz_names demo_env (fsys packed_state) =
     {[''work'', ''firmware'', ''data'', ''web'', ''index.html.gz''],
      [''work'', ''firmware'', ''data'', ''web'', ''app'', ''main.js.gz'']} \<and>
   gz_names demo_env (fsys (snd (process_frontend_files demo_env packed_state))) =
     {[''work'', ''firmware'', ''data'', ''web'', ''index.html.gz''],
      [''work'', ''firmware'', ''data'', ''web'', ''app'', ''main.js.gz'']}"
proof -
  have r: "snd (process_frontend_files demo_env demo_state) = packed_state"
    by (simp add: demo_run)
  have "wf_fs (fsys packed_state)"
    by (simp add: wf_fs_list packed_state_def packed_fs_def demo_fs_def)
  then have "distinct (map fst (fsys packed_state))" by (rule wf_distinct)
  from files_under_list [OF this, of "OUTPUT_DIR demo_env"]
  have fu: "files_under (fsys packed_state) (OUTPUT_DIR demo_env) =
     {[''work'', ''firmware'', ''data'', ''web'', ''index.html.gz''],
      [''work'', ''firmware'', ''data'', ''web'', ''app'', ''main.js.gz'']}"
    by (simp add: packed_state_def packed_fs_def demo_fs_def demo_OUTPUT_DIR strict_prefix_def)
  have e1: "endswith ''index.html.gz'' ''.gz''" "endswith ''main.js.gz'' ''.gz''"
    by (simp_all add: endswith_def suffix_to_prefix)
  have n: "gz_names demo_env (fsys packed_state) =
     {[''work'', ''firmware'', ''data'', ''web'', ''index.html.gz''],
      [''work'', ''firmware'', ''data'', ''web'', ''app'', ''main.js.gz'']}"
    unfolding gz_names_files fu using e1 by auto
  from process_twice_same_names [OF demo_wf, of demo_env] r n demo_wf show ?thesis by simp
qed

section \<open>The regular expression of get_semantic_version\<close>

text \<open>
  What the regular expression says, read off as a statement: the text starts with
  \<^verbatim>\<open>version\<close>, white space, \<^verbatim>\<open>=\<close>, white space, and a quoted non-empty value without a
  quote in it. The matcher finds exactly these matches, the leftmost first.
\<close>

definition regex_match :: "string \<Rightarrow> string \<Rightarrow> bool" where
  "regex_match t v =
     (\<exists>ws1 ws2 post.
        t = ''version'' @ ws1 @ ''='' @ ws2 @ [quote] @ v @ [quote] @ post \<and>
        list_all is_space ws1 \<and> list_all is_space ws2 \<and> v \<noteq> [] \<and> quote \<notin> set v)"

lemma skip_space_split: "\<exists>ws. t = ws @ skip_space t \<and> list_all is_space ws"
proof (induction t)
  case Nil
  then show ?case by simp
next
  case (Cons c cs)
  then obtain ws where ws: "cs = ws @ skip_space cs" "list_all is_space ws" by blast
  show ?case
  proof (cases "is_space c")
    case True
    with ws have "c # cs = (c # ws) @ skip_space (c # cs) \<and> list_all is_space (c # ws)" by simp
    then show ?thesis by blast
  next
    case False
    then have "c # cs = [] @ skip_space (c # cs) \<and> list_all is_space []" by simp
    then show ?thesis by blast
  qed
qed

lemma skip_space_append:
  "list_all is_space ws \<Longrightarrow> \<not> is_space c \<Longrightarrow> skip_space (ws @ c # r) = c # r"
  by (induction ws) auto

lemma not_space_eq: "\<not> is_space CHR ''=''"
  by (simp add: is_space_def)

lemma not_space_quote: "\<not> is_space quote"
  by (simp add: is_space_def quote_def)

lemma skip_space_head: "skip_space t = c # r \<Longrightarrow> \<not> is_space c"
  by (induction t) (auto split: if_splits)

lemma match_here_complete:
  assumes "regex_match t v"
  shows "match_here t = Some v"
proof -
  from assms obtain ws1 ws2 post where
    t: "t = ''version'' @ ws1 @ ''='' @ ws2 @ [quote] @ v @ [quote] @ post"
    and w: "list_all is_space ws1" "list_all is_space ws2" and v: "v \<noteq> []" "quote \<notin> set v"
    by (auto simp: regex_match_def)
  have p: "prefix ''version'' t" by (simp add: t)
  have d: "drop 7 t = ws1 @ CHR ''='' # ws2 @ quote # v @ quote # post" by (simp add: t)
  have s1: "skip_space (drop 7 t) = CHR ''='' # ws2 @ quote # v @ quote # post"
    unfolding d by (rule skip_space_append [OF w(1) not_space_eq])
  have s2: "skip_space (ws2 @ quote # v @ quote # post) = quote # v @ quote # post"
    by (rule skip_space_append [OF w(2) not_space_quote])
  have tw: "takeWhile (\<lambda>x. x \<noteq> quote) (v @ quote # post) = v"
    using v(2) by (auto simp: takeWhile_tail)
  have dw: "dropWhile (\<lambda>x. x \<noteq> quote) (v @ quote # post) = quote # post"
    using v(2) by (auto simp: dropWhile_append3)
  show ?thesis
    using v(1) by (simp add: match_here_def p s1 s2 tw dw Let_def)
qed

lemma match_here_sound:
  assumes "match_here t = Some v"
  shows "regex_match t v"
proof -
  from assms have p: "prefix ''version'' t"
    by (simp add: match_here_def split: if_splits)
  then obtain t1 where t: "t = ''version'' @ t1" by (auto simp: prefix_def)
  have d: "drop 7 t = t1" by (simp add: t)
  obtain ws1 where ws1: "t1 = ws1 @ skip_space t1" "list_all is_space ws1"
    using skip_space_split by blast
  from assms obtain r1 where r1: "skip_space t1 = CHR ''='' # r1"
    by (auto simp: match_here_def p d split: list.splits if_splits)
  obtain ws2 where ws2: "r1 = ws2 @ skip_space r1" "list_all is_space ws2"
    using skip_space_split by blast
  from assms obtain r2 where r2: "skip_space r1 = quote # r2"
    by (auto simp: match_here_def p d r1 split: list.splits if_splits)
  from assms have v: "v = takeWhile (\<lambda>x. x \<noteq> quote) r2" "v \<noteq> []"
    and rest: "dropWhile (\<lambda>x. x \<noteq> quote) r2 \<noteq> []"
    by (auto simp: match_here_def p d r1 r2 Let_def split: if_splits)
  from rest have "hd (dropWhile (\<lambda>x. x \<noteq> quote) r2) = quote"
    using hd_dropWhile [of "\<lambda>x. x \<noteq> quote" r2] by simp
  with rest obtain post where post: "dropWhile (\<lambda>x. x \<noteq> quote) r2 = quote # post"
    by (cases "dropWhile (\<lambda>x. x \<noteq> quote) r2") auto
  have "r2 = v @ quote # post"
    using takeWhile_dropWhile_id [of "\<lambda>x. x \<noteq> quote" r2] by (simp add: v post)
  moreover have "quote \<notin> set v"
    unfolding v by (auto dest: set_takeWhileD)
  ultimately have "t = ''version'' @ ws1 @ ''='' @ ws2 @ [quote] @ v @ [quote] @ post \<and>
      list_all is_space ws1 \<and> list_all is_space ws2 \<and> v \<noteq> [] \<and> quote \<notin> set v"
    using t ws1 r1 ws2 r2 v(2) by simp
  then show ?thesis unfolding regex_match_def by blast
qed

lemma match_here_iff: "match_here t = Some v \<longleftrightarrow> regex_match t v"
  using match_here_complete match_here_sound by blast

lemma regex_match_Nil: "\<not> regex_match [] v"
  by (simp add: regex_match_def)

lemma re_search_leftmost:
  "re_search t = Some v \<longleftrightarrow>
     (\<exists>i. regex_match (drop i t) v \<and> (\<forall>j<i. \<forall>w. \<not> regex_match (drop j t) w))"
proof (induction t)
  case Nil
  then show ?case by (simp add: regex_match_Nil)
next
  case (Cons c cs)
  show ?case
  proof (cases "match_here (c # cs)")
    case (Some w)
    then have m: "regex_match (c # cs) w" by (simp add: match_here_iff)
    have "(\<exists>i. regex_match (drop i (c # cs)) v \<and> (\<forall>j<i. \<forall>w. \<not> regex_match (drop j (c # cs)) w))
          \<longleftrightarrow> v = w"
    proof
      assume "\<exists>i. regex_match (drop i (c # cs)) v \<and> (\<forall>j<i. \<forall>w. \<not> regex_match (drop j (c # cs)) w)"
      then obtain i where i: "regex_match (drop i (c # cs)) v"
        "\<forall>j<i. \<forall>w. \<not> regex_match (drop j (c # cs)) w" by blast
      have "i = 0"
      proof (rule ccontr)
        assume "i \<noteq> 0"
        then have "0 < i" by simp
        with i(2) have "\<not> regex_match (drop 0 (c # cs)) w" by blast
        with m show False by simp
      qed
      with i(1) have "match_here (c # cs) = Some v" by (simp add: match_here_iff)
      with Some show "v = w" by simp
    next
      assume "v = w"
      with m have "regex_match (drop 0 (c # cs)) v \<and> (\<forall>j<0. \<forall>w. \<not> regex_match (drop j (c # cs)) w)"
        by simp
      then show "\<exists>i. regex_match (drop i (c # cs)) v \<and> (\<forall>j<i. \<forall>w. \<not> regex_match (drop j (c # cs)) w)"
        by blast
    qed
    with Some show ?thesis by auto
  next
    case None
    then have n: "\<And>w. \<not> regex_match (c # cs) w"
      using match_here_iff [of "c # cs"] by simp
    have "(\<exists>i. regex_match (drop i (c # cs)) v \<and> (\<forall>j<i. \<forall>w. \<not> regex_match (drop j (c # cs)) w))
          \<longleftrightarrow> (\<exists>i. regex_match (drop i cs) v \<and> (\<forall>j<i. \<forall>w. \<not> regex_match (drop j cs) w))"
    proof
      assume "\<exists>i. regex_match (drop i (c # cs)) v \<and> (\<forall>j<i. \<forall>w. \<not> regex_match (drop j (c # cs)) w)"
      then obtain i where i: "regex_match (drop i (c # cs)) v"
        "\<forall>j<i. \<forall>w. \<not> regex_match (drop j (c # cs)) w" by blast
      from i(1) n have "i \<noteq> 0" by (cases i) auto
      then obtain k where k: "i = Suc k" by (cases i) auto
      have "regex_match (drop k cs) v" using i(1) k by simp
      moreover have "\<forall>j<k. \<forall>w. \<not> regex_match (drop j cs) w"
      proof (intro allI impI)
        fix j w assume "j < k"
        then have "Suc j < i" using k by simp
        with i(2) have "\<not> regex_match (drop (Suc j) (c # cs)) w" by blast
        then show "\<not> regex_match (drop j cs) w" by simp
      qed
      ultimately show "\<exists>i. regex_match (drop i cs) v \<and> (\<forall>j<i. \<forall>w. \<not> regex_match (drop j cs) w)"
        by blast
    next
      assume "\<exists>i. regex_match (drop i cs) v \<and> (\<forall>j<i. \<forall>w. \<not> regex_match (drop j cs) w)"
      then obtain i where i: "regex_match (drop i cs) v"
        "\<forall>j<i. \<forall>w. \<not> regex_match (drop j cs) w" by blast
      have "regex_match (drop (Suc i) (c # cs)) v" using i(1) by simp
      moreover have "\<forall>j<Suc i. \<forall>w. \<not> regex_match (drop j (c # cs)) w"
      proof (intro allI impI)
        fix j w assume j: "j < Suc i"
        show "\<not> regex_match (drop j (c # cs)) w"
        proof (cases j)
          case 0
          then show ?thesis using n by simp
        next
          case (Suc k)
          with j have "k < i" by simp
          with i(2) have "\<not> regex_match (drop k cs) w" by blast
          with Suc show ?thesis by simp
        qed
      qed
      ultimately show "\<exists>i. regex_match (drop i (c # cs)) v \<and> (\<forall>j<i. \<forall>w. \<not> regex_match (drop j (c # cs)) w)"
        by blast
    qed
    with None Cons.IH show ?thesis by simp
  qed
qed

lemma re_search_none: "re_search t = None \<longleftrightarrow> (\<forall>i v. \<not> regex_match (drop i t) v)"
proof (induction t)
  case Nil
  then show ?case by (simp add: regex_match_Nil)
next
  case (Cons c cs)
  have split: "(\<forall>i v. \<not> regex_match (drop i (c # cs)) v) \<longleftrightarrow>
      (\<forall>v. \<not> regex_match (c # cs) v) \<and> (\<forall>i v. \<not> regex_match (drop i cs) v)"
  proof
    assume a: "\<forall>i v. \<not> regex_match (drop i (c # cs)) v"
    have "\<forall>v. \<not> regex_match (c # cs) v" using a [rule_format, of 0] by simp
    moreover have "\<forall>i v. \<not> regex_match (drop i cs) v"
    proof (intro allI)
      fix i v show "\<not> regex_match (drop i cs) v" using a [rule_format, of "Suc i" v] by simp
    qed
    ultimately show "(\<forall>v. \<not> regex_match (c # cs) v) \<and> (\<forall>i v. \<not> regex_match (drop i cs) v)" by blast
  next
    assume a: "(\<forall>v. \<not> regex_match (c # cs) v) \<and> (\<forall>i v. \<not> regex_match (drop i cs) v)"
    show "\<forall>i v. \<not> regex_match (drop i (c # cs)) v"
    proof (intro allI)
      fix i v show "\<not> regex_match (drop i (c # cs)) v" using a by (cases i) auto
    qed
  qed
  show ?case
  proof (cases "match_here (c # cs)")
    case None
    then have "\<forall>v. \<not> regex_match (c # cs) v" using match_here_iff [of "c # cs"] by simp
    with None Cons.IH split show ?thesis by simp
  next
    case (Some w)
    then have "regex_match (c # cs) w" by (simp add: match_here_iff)
    with Some split show ?thesis by auto
  qed
qed

section \<open>get_semantic_version\<close>

text \<open>
  The reading of the specification, for comparison: a line-oriented match searches the
  lines of the file one by one and takes the first line that has a match.
\<close>

fun split_lines :: "string \<Rightarrow> string list" where
  "split_lines [] = [[]]"
| "split_lines (c # cs) =
     (if c = newline then [] # split_lines cs
      else (case split_lines cs of
              [] \<Rightarrow> [[c]]
            | l # ls \<Rightarrow> (c # l) # ls))"

fun first_line_match :: "string list \<Rightarrow> string option" where
  "first_line_match [] = None"
| "first_line_match (l # ls) =
     (case re_search l of
        Some v \<Rightarrow> Some v
      | None \<Rightarrow> first_line_match ls)"

definition spec_line_oriented_version :: "string \<Rightarrow> string" where
  "spec_line_oriented_version content =
     (case first_line_match (split_lines content) of
        Some v \<Rightarrow> v
      | None \<Rightarrow> ''1.0.0'')"

definition ini_project :: "string \<Rightarrow> project" where
  "ini_project content =
     \<lparr>platformio_ini = Some content, build_info = None, src_dir = True, version_h = None,
      environ = [], printed = []\<rparr>"

definition assignment :: "string \<Rightarrow> string" where
  "assignment v = ''version = '' @ [quote] @ v @ [quote]"

definition two_lines :: string where
  "two_lines = ''version ='' @ [newline] @ [quote] @ ''2.3.4'' @ [quote]"

lemmas re_eval = match_here_def is_space_def quote_def newline_def Let_def

text \<open>
  The source searches the whole text, and white space in the pattern includes the line
  break: with \<^verbatim>\<open>version =\<close> on one line and the quoted value on the next, the source
  finds the value, a search line by line finds nothing.
\<close>

theorem line_oriented_counterexample:
  "get_semantic_version (ini_project two_lines) = Returned ''2.3.4'' \<and>
   spec_line_oriented_version two_lines = ''1.0.0''"
  by (simp add: get_semantic_version_def ini_project_def two_lines_def
      spec_line_oriented_version_def re_eval)

text \<open>
  Claim C5, amended. For a configuration file that can be read, \<open>get_semantic_version\<close>
  returns the quoted value of the leftmost match of the pattern in the whole text of the
  file, and the fallback \<open>1.0.0\<close> when the pattern matches nowhere; it does not fail.
\<close>

theorem get_semantic_version_leftmost_match:
  assumes "platformio_ini p = Some content"
  shows "(regex_match (drop i content) v \<and> (\<forall>j<i. \<forall>w. \<not> regex_match (drop j content) w)
            \<longrightarrow> get_semantic_version p = Returned v) \<and>
         ((\<forall>i v. \<not> regex_match (drop i content) v)
            \<longrightarrow> get_semantic_version p = Returned ''1.0.0'')"
proof (intro conjI impI)
  assume "regex_match (drop i content) v \<and> (\<forall>j<i. \<forall>w. \<not> regex_match (drop j content) w)"
  then have "re_search content = Some v"
    using re_search_leftmost [of content v] by blast
  then show "get_semantic_version p = Returned v"
    using assms by (simp add: get_semantic_version_def)
next
  assume "\<forall>i v. \<not> regex_match (drop i content) v"
  then have "re_search content = None"
    using re_search_none [of content] by blast
  then show "get_semantic_version p = Returned ''1.0.0''"
    using assms by (simp add: get_semantic_version_def)
qed

theorem get_semantic_version_leftmost_match_witness:
  "platformio_ini (ini_project (assignment ''2.3.4'')) = Some (assignment ''2.3.4'') \<and>
   regex_match (drop 0 (assignment ''2.3.4'')) ''2.3.4'' \<and>
   get_semantic_version (ini_project (assignment ''2.3.4'')) = Returned ''2.3.4'' \<and>
   platformio_ini (ini_project ''[env]'') = Some ''[env]'' \<and>
   get_semantic_version (ini_project ''[env]'') = Returned ''1.0.0''"
proof -
  have a: "platformio_ini (ini_project (assignment ''2.3.4'')) = Some (assignment ''2.3.4'')"
    and b: "platformio_ini (ini_project ''[env]'') = Some ''[env]''"
    by (simp_all add: ini_project_def)
  have "assignment ''2.3.4'' = ''version'' @ '' '' @ ''='' @ '' '' @ [quote] @ ''2.3.4'' @ [quote] @ []
      \<and> list_all is_space '' '' \<and> list_all is_space '' '' \<and> ''2.3.4'' \<noteq> [] \<and> quote \<notin> set ''2.3.4''"
    by (simp add: assignment_def is_space_def quote_def)
  then have m: "regex_match (drop 0 (assignment ''2.3.4'')) ''2.3.4''"
    unfolding regex_match_def drop_0 by blast
  have "re_search ''[env]'' = None"
    by (simp add: re_eval)
  then have n: "\<forall>i v. \<not> regex_match (drop i ''[env]'') v"
    using re_search_none [of "''[env]''"] by blast
  show ?thesis
    using a b m n
      get_semantic_version_leftmost_match [OF a, of 0 "''2.3.4''"]
      get_semantic_version_leftmost_match [OF b, of 0 "''2.3.4''"]
    by simp
qed

section \<open>The build number\<close>












end
